theory Spec2Isabelle
  imports Main "HOL-Library.Monad_Syntax"
begin

section \<open>The stack blur of \<^verbatim>\<open>jni/stackblur/stackblur.cpp\<close>\<close>

text \<open>
  The kernel works on a caller-owned buffer of \<^verbatim>\<open>unsigned char\<close> samples. A sample is a
  natural number below 256, the buffer a list of them, and a pointer into the buffer is its
  offset from \<^verbatim>\<open>src\<close>. An access outside the list (undefined behaviour in C++) is the
  value \<open>None\<close>, so a run that returns \<open>Some\<close> has made in-range accesses only.

  \<^verbatim>\<open>unsigned int\<close> is 32 bits wide. \<^verbatim>\<open>unsigned long\<close> is taken at its narrowest, 32 bits
  (the ILP32 Android ABIs); the wrap-around of each operation on the three running sums
  is written out. Where the sums stay below \<open>2 ^ 32\<close>, as they are shown to do for every
  radius the tables cover, a wider \<^verbatim>\<open>unsigned long\<close> computes the same.
\<close>

subsection \<open>Scaling tables\<close>

definition stackblur_mul :: "nat list" where
  "stackblur_mul = [
    512, 512, 456, 512, 328, 456, 335, 512, 405, 328, 271, 456, 388, 335, 292, 512,
    454, 405, 364, 328, 298, 271, 496, 456, 420, 388, 360, 335, 312, 292, 273, 512,
    482, 454, 428, 405, 383, 364, 345, 328, 312, 298, 284, 271, 259, 496, 475, 456,
    437, 420, 404, 388, 374, 360, 347, 335, 323, 312, 302, 292, 282, 273, 265, 512,
    497, 482, 468, 454, 441, 428, 417, 405, 394, 383, 373, 364, 354, 345, 337, 328,
    320, 312, 305, 298, 291, 284, 278, 271, 265, 259, 507, 496, 485, 475, 465, 456,
    446, 437, 428, 420, 412, 404, 396, 388, 381, 374, 367, 360, 354, 347, 341, 335,
    329, 323, 318, 312, 307, 302, 297, 292, 287, 282, 278, 273, 269, 265, 261, 512,
    505, 497, 489, 482, 475, 468, 461, 454, 447, 441, 435, 428, 422, 417, 411, 405,
    399, 394, 389, 383, 378, 373, 368, 364, 359, 354, 350, 345, 341, 337, 332, 328,
    324, 320, 316, 312, 309, 305, 301, 298, 294, 291, 287, 284, 281, 278, 274, 271,
    268, 265, 262, 259, 257, 507, 501, 496, 491, 485, 480, 475, 470, 465, 460, 456,
    451, 446, 442, 437, 433, 428, 424, 420, 416, 412, 408, 404, 400, 396, 392, 388,
    385, 381, 377, 374, 370, 367, 363, 360, 357, 354, 350, 347, 344, 341, 338, 335,
    332, 329, 326, 323, 320, 318, 315, 312, 310, 307, 304, 302, 299, 297, 294, 292,
    289, 287, 285, 282, 280, 278, 275, 273, 271, 269, 267, 265, 263, 261, 259]"

definition stackblur_shr :: "nat list" where
  "stackblur_shr = [
    9, 11, 12, 13, 13, 14, 14, 15, 15, 15, 15, 16, 16, 16, 16, 17,
    17, 17, 17, 17, 17, 17, 18, 18, 18, 18, 18, 18, 18, 18, 18, 19,
    19, 19, 19, 19, 19, 19, 19, 19, 19, 19, 19, 19, 19, 20, 20, 20,
    20, 20, 20, 20, 20, 20, 20, 20, 20, 20, 20, 20, 20, 20, 20, 21,
    21, 21, 21, 21, 21, 21, 21, 21, 21, 21, 21, 21, 21, 21, 21, 21,
    21, 21, 21, 21, 21, 21, 21, 21, 21, 21, 22, 22, 22, 22, 22, 22,
    22, 22, 22, 22, 22, 22, 22, 22, 22, 22, 22, 22, 22, 22, 22, 22,
    22, 22, 22, 22, 22, 22, 22, 22, 22, 22, 22, 22, 22, 22, 22, 23,
    23, 23, 23, 23, 23, 23, 23, 23, 23, 23, 23, 23, 23, 23, 23, 23,
    23, 23, 23, 23, 23, 23, 23, 23, 23, 23, 23, 23, 23, 23, 23, 23,
    23, 23, 23, 23, 23, 23, 23, 23, 23, 23, 23, 23, 23, 23, 23, 23,
    23, 23, 23, 23, 23, 24, 24, 24, 24, 24, 24, 24, 24, 24, 24, 24,
    24, 24, 24, 24, 24, 24, 24, 24, 24, 24, 24, 24, 24, 24, 24, 24,
    24, 24, 24, 24, 24, 24, 24, 24, 24, 24, 24, 24, 24, 24, 24, 24,
    24, 24, 24, 24, 24, 24, 24, 24, 24, 24, 24, 24, 24, 24, 24, 24,
    24, 24, 24, 24, 24, 24, 24, 24, 24, 24, 24, 24, 24, 24, 24]"

subsection \<open>Machine arithmetic and memory\<close>

definition u32 :: "nat \<Rightarrow> nat" where
  "u32 n = n mod 4294967296"

definition u8 :: "nat \<Rightarrow> nat" where
  "u8 n = n mod 256"

text \<open>\<^verbatim>\<open>a + b\<close>, \<^verbatim>\<open>a - b\<close> and \<^verbatim>\<open>a * b\<close> on \<^verbatim>\<open>unsigned long\<close>.\<close>

definition ul_add :: "nat \<Rightarrow> nat \<Rightarrow> nat" where
  "ul_add a b = (a + b) mod 4294967296"

definition ul_sub :: "nat \<Rightarrow> nat \<Rightarrow> nat" where
  "ul_sub a b = (a + (4294967296 - b mod 4294967296)) mod 4294967296"

definition ul_mul :: "nat \<Rightarrow> nat \<Rightarrow> nat" where
  "ul_mul a b = (a * b) mod 4294967296"

text \<open>
  The macro \<^verbatim>\<open>clamp(a,min,max)\<close>. Its first argument is an \<^verbatim>\<open>unsigned long\<close>, so the
  comparisons with the \<^verbatim>\<open>int\<close> bounds 0 and 255 are unsigned ones.
\<close>

definition clamp :: "nat \<Rightarrow> nat \<Rightarrow> nat \<Rightarrow> nat" where
  "clamp a mn mx = (if a < mn then mn else if a > mx then mx else a)"

text \<open>\<^verbatim>\<open>p[0]\<close> as a read and as a write, for a pointer \<open>p\<close> at offset \<open>i\<close> of an array.\<close>

definition load :: "nat list \<Rightarrow> nat \<Rightarrow> nat option" where
  "load m i = (if i < length m then Some (m ! i) else None)"

definition store :: "nat list \<Rightarrow> nat \<Rightarrow> nat \<Rightarrow> nat list option" where
  "store m i v = (if i < length m then Some (m[i := v]) else None)"

subsection \<open>The kernel\<close>

text \<open>
  The local variables of \<^verbatim>\<open>stackblur\<close> that change while it runs, together with the
  two arrays it writes: \<open>mem\<close> is the memory \<^verbatim>\<open>src\<close> points to, \<open>stack\<close> the
  variable-length array \<^verbatim>\<open>stack[div]\<close> (\<open>dv\<close> stands for \<^verbatim>\<open>div\<close>). The field \<open>xp\<close> is \<^verbatim>\<open>xp\<close> in step 1 and
  \<^verbatim>\<open>yp\<close> in step 2; \<open>sumv\<close> is \<^verbatim>\<open>sum\<close>.
\<close>

record blur_state =
  mem :: "nat list"
  stack :: "nat list"
  sumv :: nat
  sum_in :: nat
  sum_out :: nat
  src_ptr :: nat
  dst_ptr :: nat
  sp :: nat
  xp :: nat

text \<open>A counting \<^verbatim>\<open>for\<close> loop over the listed values that stops at the first failure.\<close>

fun for_loop :: "nat list \<Rightarrow> (nat \<Rightarrow> 's \<Rightarrow> 's option) \<Rightarrow> 's \<Rightarrow> 's option" where
  "for_loop [] body s = Some s"
| "for_loop (i # is) body s = (case body i s of None \<Rightarrow> None | Some s' \<Rightarrow> for_loop is body s')"

text \<open>
  Step 1 (lines 87 to 147) and step 2 (lines 153 to 211) are the same text up to the
  length of a line, the distance between two samples of a line and the offset of its
  first sample:
  \<^item> step 1, row \<open>y\<close>: \<open>n = w\<close>, \<open>nm = wm\<close>, \<open>stride = 1\<close>, \<open>start = y * w\<close>;
  \<^item> step 2, column \<open>x\<close>: \<open>n = h\<close>, \<open>nm = hm\<close>, \<open>stride = w\<close>, \<open>start = x\<close>.
  The three inner loops are modelled once, with these as parameters.

  The body of the first loop (\<^verbatim>\<open>for(i = 0; i <= radius; i++)\<close>).
\<close>

definition fill_out :: "nat \<Rightarrow> blur_state \<Rightarrow> blur_state option" where
  "fill_out i s = do {
     v \<leftarrow> load (mem s) (src_ptr s);
     stk \<leftarrow> store (stack s) i v;
     Some (s\<lparr>stack := stk,
             sumv := ul_add (sumv s) (u32 (v * u32 (i + 1))),
             sum_out := ul_add (sum_out s) v\<rparr>)
   }"

text \<open>The body of the second loop (\<^verbatim>\<open>for(i = 1; i <= radius; i++)\<close>).\<close>

definition fill_in :: "nat \<Rightarrow> nat \<Rightarrow> nat \<Rightarrow> nat \<Rightarrow> blur_state \<Rightarrow> blur_state option" where
  "fill_in radius nm stride i s = do {
     let p = (if i \<le> nm then src_ptr s + stride else src_ptr s);
     v \<leftarrow> load (mem s) p;
     stk \<leftarrow> store (stack s) (u32 (i + radius)) v;
     Some (s\<lparr>src_ptr := p,
             stack := stk,
             sumv := ul_add (sumv s) (u32 (v * u32 (u32 (radius + 1) + (4294967296 - i)))),
             sum_in := ul_add (sum_in s) v\<rparr>)
   }"

text \<open>The body of the third loop, which writes one sample and slides the window.\<close>

definition emit :: "nat \<Rightarrow> nat \<Rightarrow> nat \<Rightarrow> nat \<Rightarrow> nat \<Rightarrow> nat \<Rightarrow> nat \<Rightarrow> blur_state \<Rightarrow> blur_state option" where
  "emit radius mul_sum shr_sum dv nm stride x s = do {
     m1 \<leftarrow> store (mem s) (dst_ptr s) (u8 (clamp (ul_mul (sumv s) mul_sum div 2 ^ shr_sum) 0 255));
     let sum1 = ul_sub (sumv s) (sum_out s);
     let stack_start = u32 (u32 (sp s + dv) + (4294967296 - radius));
     let stack_start = (if stack_start \<ge> dv then u32 (stack_start + (4294967296 - dv)) else stack_start);
     old \<leftarrow> load (stack s) stack_start;
     let sum_out1 = ul_sub (sum_out s) old;
     let src1 = (if xp s < nm then src_ptr s + stride else src_ptr s);
     let xp1 = (if xp s < nm then u32 (xp s + 1) else xp s);
     v \<leftarrow> load m1 src1;
     stk \<leftarrow> store (stack s) stack_start v;
     let sum_in1 = ul_add (sum_in s) v;
     let sum2 = ul_add sum1 sum_in1;
     let sp1 = u32 (sp s + 1);
     let sp1 = (if sp1 \<ge> dv then 0 else sp1);
     top \<leftarrow> load stk sp1;
     Some (s\<lparr>mem := m1, stack := stk, dst_ptr := dst_ptr s + stride,
             src_ptr := src1, xp := xp1, sp := sp1,
             sumv := sum2, sum_out := ul_add sum_out1 top, sum_in := ul_sub sum_in1 top\<rparr>)
   }"

text \<open>
  One row of step 1 or one column of step 2. The read pointer is set to \<^verbatim>\<open>src + xp + y * w\<close>
  in step 1 and to \<^verbatim>\<open>src + x + yp * w\<close> in step 2, that is to \<open>start\<close> plus the
  \<^verbatim>\<open>unsigned int\<close> product of \<open>p\<close> and \<open>stride\<close> (in step 1 the product is \<open>p\<close> itself,
  which is at most \<open>radius\<close>).
\<close>

definition blur_line ::
  "nat \<Rightarrow> nat \<Rightarrow> nat \<Rightarrow> nat \<Rightarrow> nat \<Rightarrow> nat \<Rightarrow> nat \<Rightarrow> nat \<Rightarrow> blur_state \<Rightarrow> blur_state option" where
  "blur_line radius mul_sum shr_sum dv n nm stride start s0 = do {
     let s = s0\<lparr>sumv := 0, sum_in := 0, sum_out := 0, src_ptr := start\<rparr>;
     s \<leftarrow> for_loop [0..<radius + 1] fill_out s;
     s \<leftarrow> for_loop [1..<radius + 1] (fill_in radius nm stride) s;
     let p = (if radius > nm then nm else radius);
     let s = s\<lparr>sp := radius, xp := p, src_ptr := start + u32 (p * stride), dst_ptr := start\<rparr>;
     for_loop [0..<n] (emit radius mul_sum shr_sum dv nm stride) s
   }"

text \<open>
  \<^verbatim>\<open>stackblur(src, w, h, radius, step)\<close>. The arguments \<open>w\<close>, \<open>h\<close> and \<open>radius\<close> are
  \<^verbatim>\<open>unsigned int\<close> values, below \<open>2 ^ 32\<close>. The two table reads come first, so every later
  use of \<open>radius\<close> has \<open>radius < 255\<close>. The array \<^verbatim>\<open>stack[div]\<close> starts with
  unspecified contents, here zeros: the first two loops write each of its cells before the
  third reads one. Locals that the source leaves uninitialised start at 0 likewise.
\<close>

definition stackblur :: "nat list \<Rightarrow> nat \<Rightarrow> nat \<Rightarrow> nat \<Rightarrow> int \<Rightarrow> nat list option" where
  "stackblur src w h radius step = do {
     let wm = u32 (w + 4294967295);
     let hm = u32 (h + 4294967295);
     let dv = u32 (u32 (radius * 2) + 1);
     mul_sum \<leftarrow> load stackblur_mul radius;
     shr_sum \<leftarrow> load stackblur_shr radius;
     let s = \<lparr>mem = src, stack = replicate dv 0, sumv = 0, sum_in = 0, sum_out = 0,
              src_ptr = 0, dst_ptr = 0, sp = 0, xp = 0\<rparr>;
     s \<leftarrow> (if step = 1
           then for_loop [0..<h] (\<lambda>y. blur_line radius mul_sum shr_sum dv w wm 1 (u32 (y * w))) s
           else Some s);
     s \<leftarrow> (if step = 2
           then for_loop [0..<w] (\<lambda>x. blur_line radius mul_sum shr_sum dv h hm w x) s
           else Some s);
     Some (mem s)
   }"

text \<open>
  The JNI entry point. The three \<^verbatim>\<open>jint\<close> arguments are converted to \<^verbatim>\<open>unsigned int\<close>;
  \<open>src\<close> is the contents of the direct buffer.
\<close>

definition to_uint :: "int \<Rightarrow> nat" where
  "to_uint i = nat (i mod 4294967296)"

definition Java_com_jxtras_android_utils_ImageUtils_stackblur ::
  "nat list \<Rightarrow> int \<Rightarrow> int \<Rightarrow> int \<Rightarrow> nat list option" where
  "Java_com_jxtras_android_utils_ImageUtils_stackblur src width height radius = do {
     pixels \<leftarrow> stackblur src (to_uint width) (to_uint height) (to_uint radius) 1;
     stackblur pixels (to_uint width) (to_uint height) (to_uint radius) 2
   }"

subsection \<open>States inside a run\<close>

text \<open>
  The prefix of \<open>blur_line\<close> up to the third loop: the two loops that fill the stack, and
  the assignments to \<^verbatim>\<open>sp\<close>, \<^verbatim>\<open>xp\<close>, \<^verbatim>\<open>src_ptr\<close> and \<^verbatim>\<open>dst_ptr\<close> after them.
\<close>

definition line_init :: "nat \<Rightarrow> nat \<Rightarrow> nat \<Rightarrow> nat \<Rightarrow> blur_state \<Rightarrow> blur_state option" where
  "line_init radius nm stride start s0 = do {
     let s = s0\<lparr>sumv := 0, sum_in := 0, sum_out := 0, src_ptr := start\<rparr>;
     s \<leftarrow> for_loop [0..<radius + 1] fill_out s;
     s \<leftarrow> for_loop [1..<radius + 1] (fill_in radius nm stride) s;
     let p = (if radius > nm then nm else radius);
     Some (s\<lparr>sp := radius, xp := p, src_ptr := start + u32 (p * stride), dst_ptr := start\<rparr>)
   }"

text \<open>
  The loop heads of a line: before iteration \<open>i\<close> of the first loop, before iteration \<open>i\<close>
  of the second, before iteration \<open>k\<close> of the third (the bound of a loop counts as its last
  head, reached when the loop is left).
\<close>

datatype point = In_fill_out nat | In_fill_in nat | In_emit nat

fun valid_point :: "nat \<Rightarrow> nat \<Rightarrow> point \<Rightarrow> bool" where
  "valid_point radius n (In_fill_out i) = (i \<le> radius + 1)"
| "valid_point radius n (In_fill_in i) = (1 \<le> i \<and> i \<le> radius + 1)"
| "valid_point radius n (In_emit k) = (k \<le> n)"

text \<open>The state in which a line that is started in \<open>s0\<close> reaches a loop head.\<close>

fun line_state ::
  "nat \<Rightarrow> nat \<Rightarrow> nat \<Rightarrow> nat \<Rightarrow> nat \<Rightarrow> nat \<Rightarrow> nat \<Rightarrow> point \<Rightarrow> blur_state \<Rightarrow> blur_state option" where
  "line_state radius mul_sum shr_sum dv nm stride start (In_fill_out i) s0 =
     for_loop [0..<i] fill_out (s0\<lparr>sumv := 0, sum_in := 0, sum_out := 0, src_ptr := start\<rparr>)"
| "line_state radius mul_sum shr_sum dv nm stride start (In_fill_in i) s0 =
     for_loop [0..<radius + 1] fill_out (s0\<lparr>sumv := 0, sum_in := 0, sum_out := 0, src_ptr := start\<rparr>)
       \<bind> for_loop [1..<i] (fill_in radius nm stride)"
| "line_state radius mul_sum shr_sum dv nm stride start (In_emit k) s0 =
     line_init radius nm stride start s0 \<bind> for_loop [0..<k] (emit radius mul_sum shr_sum dv nm stride)"

text \<open>
  The state in which \<^verbatim>\<open>stackblur(src, w, h, radius, step)\<close> reaches the loop head \<open>pt\<close> of
  line \<open>l\<close> (row \<open>l\<close> in step 1, column \<open>l\<close> in step 2): the lines before \<open>l\<close> have been
  blurred.
\<close>

definition stackblur_state :: "nat list \<Rightarrow> nat \<Rightarrow> nat \<Rightarrow> nat \<Rightarrow> int \<Rightarrow> nat \<Rightarrow> point \<Rightarrow> blur_state option" where
  "stackblur_state src w h radius step l pt = do {
     let wm = u32 (w + 4294967295);
     let hm = u32 (h + 4294967295);
     let dv = u32 (u32 (radius * 2) + 1);
     mul_sum \<leftarrow> load stackblur_mul radius;
     shr_sum \<leftarrow> load stackblur_shr radius;
     let s = \<lparr>mem = src, stack = replicate dv 0, sumv = 0, sum_in = 0, sum_out = 0,
              src_ptr = 0, dst_ptr = 0, sp = 0, xp = 0\<rparr>;
     if step = 1 then do {
       s \<leftarrow> for_loop [0..<l] (\<lambda>y. blur_line radius mul_sum shr_sum dv w wm 1 (u32 (y * w))) s;
       line_state radius mul_sum shr_sum dv wm 1 (u32 (l * w)) pt s
     } else if step = 2 then do {
       s \<leftarrow> for_loop [0..<l] (\<lambda>x. blur_line radius mul_sum shr_sum dv h hm w x) s;
       line_state radius mul_sum shr_sum dv hm w l pt s
     } else None
   }"

section \<open>The two passes, as the specification words them\<close>

text \<open>
  The horizontal pass replaces the sample at \<open>(x, y)\<close> by
  \<open>clamp((T * mul[radius]) >> shr[radius], 0, 255)\<close>, where \<open>T\<close> is the sum over \<open>k\<close> from
  \<open>-radius\<close> to \<open>radius\<close> of \<open>(radius + 1 - |k|) * orig[y * w + clamp(x + k, 0, w - 1)]\<close>;
  the vertical pass does the same along a column. These follow the specification, not the
  code.
\<close>

definition iclamp :: "int \<Rightarrow> int \<Rightarrow> int \<Rightarrow> int" where
  "iclamp a lo hi = (if a < lo then lo else if a > hi then hi else a)"

definition tent_row :: "nat list \<Rightarrow> nat \<Rightarrow> nat \<Rightarrow> nat \<Rightarrow> nat \<Rightarrow> int" where
  "tent_row orig w radius x y =
     (\<Sum>k\<leftarrow>[- int radius..int radius].
        (int radius + 1 - \<bar>k\<bar>) * int (orig ! (y * w + nat (iclamp (int x + k) 0 (int w - 1)))))"

definition tent_col :: "nat list \<Rightarrow> nat \<Rightarrow> nat \<Rightarrow> nat \<Rightarrow> nat \<Rightarrow> nat \<Rightarrow> int" where
  "tent_col orig w h radius x y =
     (\<Sum>k\<leftarrow>[- int radius..int radius].
        (int radius + 1 - \<bar>k\<bar>) * int (orig ! (nat (iclamp (int y + k) 0 (int h - 1)) * w + x)))"

definition scale_spec :: "nat \<Rightarrow> int \<Rightarrow> int" where
  "scale_spec radius T =
     iclamp ((T * int (stackblur_mul ! radius)) div 2 ^ (stackblur_shr ! radius)) 0 255"

definition blur_rows :: "nat list \<Rightarrow> nat \<Rightarrow> nat \<Rightarrow> nat \<Rightarrow> nat list" where
  "blur_rows orig w h radius =
     map (\<lambda>p. nat (scale_spec radius (tent_row orig w radius (p mod w) (p div w)))) [0..<w * h]"

definition blur_cols :: "nat list \<Rightarrow> nat \<Rightarrow> nat \<Rightarrow> nat \<Rightarrow> nat list" where
  "blur_cols orig w h radius =
     map (\<lambda>p. nat (scale_spec radius (tent_col orig w h radius (p mod w) (p div w)))) [0..<w * h]"

section \<open>Notions for the proofs\<close>

text \<open>
  For a sequence \<open>f\<close> of samples and a window of \<open>2 * r + 1\<close> of them that starts at
  position \<open>k\<close>: \<open>out_sum\<close> adds the first \<open>r + 1\<close> samples of the window (the ones on their
  way out), \<open>in_sum\<close> the last \<open>r\<close> (the ones that have come in), and \<open>win_sum\<close> adds all of
  them with the tent weights \<open>1, 2, \<dots>, r + 1, \<dots>, 2, 1\<close>, the rising half in \<open>up_sum\<close> and
  the falling half in \<open>down_sum\<close>.
\<close>

definition out_sum :: "nat \<Rightarrow> (nat \<Rightarrow> nat) \<Rightarrow> nat \<Rightarrow> nat" where
  "out_sum r f k = (\<Sum>j<r + 1. f (k + j))"

definition in_sum :: "nat \<Rightarrow> (nat \<Rightarrow> nat) \<Rightarrow> nat \<Rightarrow> nat" where
  "in_sum r f k = (\<Sum>j<r. f (k + r + 1 + j))"

definition up_sum :: "nat \<Rightarrow> (nat \<Rightarrow> nat) \<Rightarrow> nat \<Rightarrow> nat" where
  "up_sum r f k = (\<Sum>j<r + 1. (j + 1) * f (k + j))"

definition down_sum :: "nat \<Rightarrow> (nat \<Rightarrow> nat) \<Rightarrow> nat \<Rightarrow> nat" where
  "down_sum r f k = (\<Sum>j<r. (r - j) * f (k + r + 1 + j))"

definition win_sum :: "nat \<Rightarrow> (nat \<Rightarrow> nat) \<Rightarrow> nat \<Rightarrow> nat" where
  "win_sum r f k = up_sum r f k + down_sum r f k"

text \<open>
  An entry \<open>(m, sh)\<close> at index \<open>r\<close> divides by the sum \<open>(r + 1)\<^sup>2\<close> of the tent weights:
  \<open>m * (r + 1)\<^sup>2\<close> is at least \<open>2 ^ sh\<close> and exceeds it by less than \<open>2 ^ sh / 255\<close>, and the
  largest product the kernel forms with it is below \<open>2 ^ 32\<close>.
\<close>

definition entry_ok :: "nat \<Rightarrow> nat \<Rightarrow> nat \<Rightarrow> bool" where
  "entry_ok r m sh = (2 ^ sh \<le> m * ((r + 1) * (r + 1)) \<and>
     255 * (m * ((r + 1) * (r + 1)) - 2 ^ sh) < 2 ^ sh \<and>
     255 * ((r + 1) * (r + 1)) * m < 4294967296)"

text \<open>\<open>entry_ok\<close> for the entries of two tables, from index \<open>r\<close> on.\<close>

fun entries_ok :: "nat \<Rightarrow> nat list \<Rightarrow> nat list \<Rightarrow> bool" where
  "entries_ok r (m # ms) (sh # shs) = (entry_ok r m sh \<and> entries_ok (r + 1) ms shs)"
| "entries_ok r _ _ = True"

text \<open>
  The argument of \<^verbatim>\<open>clamp\<close> in the third loop, for a sum \<open>t\<close>, and the sample written for
  it.
\<close>

definition pre_clamp :: "nat \<Rightarrow> nat \<Rightarrow> nat \<Rightarrow> nat" where
  "pre_clamp m sh t = ul_mul t m div 2 ^ sh"

definition scaled :: "nat \<Rightarrow> nat \<Rightarrow> nat \<Rightarrow> nat" where
  "scaled m sh t = u8 (clamp (pre_clamp m sh t) 0 255)"

text \<open>
  \<open>ext b start stride n r j\<close> is the \<open>j\<close>-th sample of the line that starts at offset
  \<open>start\<close> of \<open>b\<close>, has \<open>n\<close> samples \<open>stride\<close> apart, and is extended by \<open>r\<close> copies of
  its first sample in front and by copies of its last sample behind.
\<close>

definition ext :: "nat list \<Rightarrow> nat \<Rightarrow> nat \<Rightarrow> nat \<Rightarrow> nat \<Rightarrow> nat \<Rightarrow> nat" where
  "ext b start stride n r j = b ! (start + min (j - r) (n - 1) * stride)"

text \<open>
  The samples that the window takes in, in the order in which the code reads them. They
  are those of \<open>ext\<close>, except for the one read in the last iteration of the third loop:
  the read pointer then stands on the last sample of the line, which that iteration has
  just overwritten. No output depends on it.
\<close>

definition stream :: "nat list \<Rightarrow> nat \<Rightarrow> nat \<Rightarrow> nat \<Rightarrow> nat \<Rightarrow> nat \<Rightarrow> nat \<Rightarrow> nat \<Rightarrow> nat" where
  "stream b start stride n r m sh j =
     (if j < n + 2 * r then ext b start stride n r j
      else scaled m sh (win_sum r (ext b start stride n r) (n - 1)))"

text \<open>A line that lies inside a buffer of samples up to 255.\<close>

definition line_ok :: "nat list \<Rightarrow> nat \<Rightarrow> nat \<Rightarrow> nat \<Rightarrow> bool" where
  "line_ok b start stride n \<longleftrightarrow>
     1 \<le> n \<and> n < 4294967296 \<and> 1 \<le> stride \<and> (n - 1) * stride < 4294967296 \<and>
     start + (n - 1) * stride < length b \<and> (\<forall>x\<in>set b. x \<le> 255)"

text \<open>
  The invariants of the three loops of a line over the buffer \<open>b\<close>, at the head of
  iteration \<open>i\<close> (of iteration \<open>k\<close> for the third loop), and the invariant of the loop over
  the lines of a pass whose line \<open>L\<close> starts at \<open>stf L\<close>, at the head of iteration \<open>K\<close>.
\<close>

definition fill_out_inv :: "nat list \<Rightarrow> nat \<Rightarrow> nat \<Rightarrow> nat \<Rightarrow> nat \<Rightarrow> nat \<Rightarrow> blur_state \<Rightarrow> bool" where
  "fill_out_inv b start stride n r i s \<longleftrightarrow>
     length (stack s) = 2 * r + 1 \<and> mem s = b \<and> src_ptr s = start \<and>
     (\<forall>j<i. stack s ! j = ext b start stride n r j) \<and>
     sumv s = (\<Sum>j<i. (j + 1) * ext b start stride n r j) \<and>
     sum_out s = (\<Sum>j<i. ext b start stride n r j) \<and>
     sum_in s = 0"

definition fill_in_inv :: "nat list \<Rightarrow> nat \<Rightarrow> nat \<Rightarrow> nat \<Rightarrow> nat \<Rightarrow> nat \<Rightarrow> blur_state \<Rightarrow> bool" where
  "fill_in_inv b start stride n r i s \<longleftrightarrow>
     length (stack s) = 2 * r + 1 \<and> mem s = b \<and>
     src_ptr s = start + min (i - 1) (n - 1) * stride \<and>
     (\<forall>j<r + i. stack s ! j = ext b start stride n r j) \<and>
     sumv s = up_sum r (ext b start stride n r) 0 + (\<Sum>j<i - 1. (r - j) * ext b start stride n r (r + 1 + j)) \<and>
     sum_in s = (\<Sum>j<i - 1. ext b start stride n r (r + 1 + j)) \<and>
     sum_out s = out_sum r (ext b start stride n r) 0"

definition emit_inv ::
  "nat \<Rightarrow> nat \<Rightarrow> nat \<Rightarrow> nat list \<Rightarrow> nat \<Rightarrow> nat \<Rightarrow> nat \<Rightarrow> nat \<Rightarrow> blur_state \<Rightarrow> bool" where
  "emit_inv r m sh b start stride n k s \<longleftrightarrow>
     length (stack s) = 2 * r + 1 \<and> length (mem s) = length b \<and>
     sp s = (k + r) mod (2 * r + 1) \<and>
     (\<forall>j<2 * r + 1. stack s ! ((k + j) mod (2 * r + 1)) = stream b start stride n r m sh (k + j)) \<and>
     sumv s = win_sum r (stream b start stride n r m sh) k \<and>
     sum_out s = out_sum r (stream b start stride n r m sh) k \<and>
     sum_in s = in_sum r (stream b start stride n r m sh) k \<and>
     xp s = min (k + r) (n - 1) \<and>
     src_ptr s = start + min (k + r) (n - 1) * stride \<and>
     dst_ptr s = start + k * stride \<and>
     (\<forall>i<n. mem s ! (start + i * stride) =
        (if i < k then scaled m sh (win_sum r (ext b start stride n r) i) else b ! (start + i * stride))) \<and>
     (\<forall>p<length b. (\<forall>i<n. p \<noteq> start + i * stride) \<longrightarrow> mem s ! p = b ! p)"

definition pass_inv ::
  "nat \<Rightarrow> nat \<Rightarrow> nat \<Rightarrow> nat list \<Rightarrow> (nat \<Rightarrow> nat) \<Rightarrow> nat \<Rightarrow> nat \<Rightarrow> nat \<Rightarrow> nat \<Rightarrow> blur_state \<Rightarrow> bool" where
  "pass_inv r m sh orig stf stride n M K t \<longleftrightarrow>
     length (stack t) = 2 * r + 1 \<and> length (mem t) = length orig \<and>
     (\<forall>v\<in>set (mem t). v \<le> 255) \<and>
     (\<forall>L<M. \<forall>i<n. mem t ! (stf L + i * stride) =
        (if L < K then scaled m sh (win_sum r (ext orig (stf L) stride n r) i)
         else orig ! (stf L + i * stride))) \<and>
     (\<forall>p<length orig. (\<forall>L<M. \<forall>i<n. p \<noteq> stf L + i * stride) \<longrightarrow> mem t ! p = orig ! p)"

section \<open>Proofs\<close>

subsection \<open>Arithmetic without wrap-around\<close>

lemma u32_id: "n < 4294967296 \<Longrightarrow> u32 n = n"
  by (simp add: u32_def)

lemma ul_add_id: "a + b < 4294967296 \<Longrightarrow> ul_add a b = a + b"
  by (simp add: ul_add_def)

lemma ul_sub_id: "b \<le> a \<Longrightarrow> a < 4294967296 \<Longrightarrow> ul_sub a b = a - b"
proof -
  assume h: "b \<le> a" "a < 4294967296"
  then have "b mod 4294967296 = b" by simp
  moreover have "a + (4294967296 - b) = (a - b) + 4294967296" using h by simp
  moreover have "((a - b) + 4294967296) mod 4294967296 = (a - b) mod 4294967296"
    by (rule mod_add_self2)
  moreover have "(a - b) mod 4294967296 = a - b" using h by (intro mod_less) arith
  ultimately show ?thesis unfolding ul_sub_def by presburger
qed

lemma ul_mul_id: "a * b < 4294967296 \<Longrightarrow> ul_mul a b = a * b"
  by (simp add: ul_mul_def)

subsection \<open>The loop combinator\<close>

lemma for_loop_append:
  "for_loop (xs @ ys) body s = (case for_loop xs body s of None \<Rightarrow> None | Some s' \<Rightarrow> for_loop ys body s')"
  by (induction xs arbitrary: s) (auto split: option.splits)

lemma for_loop_inv:
  assumes "a \<le> b" and "P a s"
    and "\<And>i t. a \<le> i \<Longrightarrow> i < b \<Longrightarrow> P i t \<Longrightarrow> \<exists>t'. body i t = Some t' \<and> P (Suc i) t'"
  shows "\<exists>s'. for_loop [a..<b] body s = Some s' \<and> P b s'"
  using assms(1,3)
proof (induction b)
  case 0
  then show ?case using assms(2) by simp
next
  case (Suc b)
  show ?case
  proof (cases "a = Suc b")
    case True
    then show ?thesis using assms(2) by simp
  next
    case False
    then have ab: "a \<le> b" using Suc.prems(1) by simp
    have "\<exists>s'. for_loop [a..<b] body s = Some s' \<and> P b s'"
      by (rule Suc.IH [OF ab]) (use Suc.prems(2) in auto)
    then obtain s' where s': "for_loop [a..<b] body s = Some s'" "P b s'" by blast
    from Suc.prems(2) [OF ab _ s'(2)] obtain t' where "body b s' = Some t'" "P (Suc b) t'"
      by auto
    then show ?thesis using s' ab by (simp add: for_loop_append)
  qed
qed

subsection \<open>Window sums\<close>

lemma out_sum_slide: "out_sum r f (Suc k) + f k = out_sum r f k + f (k + r + 1)"
proof -
  have "out_sum r f k + f (k + r + 1) = (\<Sum>j<Suc (r + 1). f (k + j))"
    by (simp add: out_sum_def add.assoc)
  also have "\<dots> = f k + (\<Sum>j<r + 1. f (k + Suc j))"
    by (subst sum.lessThan_Suc_shift) simp
  finally show ?thesis by (simp add: out_sum_def)
qed

lemma in_sum_slide: "in_sum r f (Suc k) + f (k + r + 1) = in_sum r f k + f (k + 2 * r + 1)"
proof -
  have "in_sum r f k + f (k + 2 * r + 1) = (\<Sum>j<Suc r. f (k + r + 1 + j))"
    by (simp add: in_sum_def mult_2 add.assoc add.left_commute)
  also have "\<dots> = f (k + r + 1) + (\<Sum>j<r. f (k + r + 1 + Suc j))"
    by (subst sum.lessThan_Suc_shift) simp
  finally show ?thesis by (simp add: in_sum_def)
qed

lemma up_sum_slide: "up_sum r f (Suc k) + out_sum r f k = up_sum r f k + (r + 1) * f (k + r + 1)"
proof -
  have "up_sum r f k = (\<Sum>j<r + 1. j * f (k + j)) + out_sum r f k"
    by (simp add: up_sum_def out_sum_def sum.distrib)
  moreover have "(\<Sum>j<r + 1. j * f (k + j)) = (\<Sum>j<r. (j + 1) * f (Suc k + j))"
    using sum.lessThan_Suc_shift [of "\<lambda>j. j * f (k + j)" r] by simp
  moreover have "up_sum r f (Suc k) = (\<Sum>j<r. (j + 1) * f (Suc k + j)) + (r + 1) * f (k + r + 1)"
    by (simp add: up_sum_def add.commute add.left_commute)
  ultimately show ?thesis by simp
qed

lemma down_sum_slide:
  "down_sum r f k + in_sum r f k + f (k + 2 * r + 1) = (r + 1) * f (k + r + 1) + down_sum r f (Suc k)"
proof -
  have "down_sum r f k + in_sum r f k = (\<Sum>j<r. (r + 1 - j) * f (k + r + 1 + j))"
    unfolding down_sum_def in_sum_def sum.distrib [symmetric]
    by (rule sum.cong) (auto simp: algebra_simps Suc_diff_le)
  then have "down_sum r f k + in_sum r f k + f (k + 2 * r + 1) = (\<Sum>j<Suc r. (r + 1 - j) * f (k + r + 1 + j))"
    by (simp add: mult_2 add.assoc add.left_commute)
  also have "\<dots> = (r + 1) * f (k + r + 1) + (\<Sum>j<r. (r + 1 - Suc j) * f (k + r + 1 + Suc j))"
    by (subst sum.lessThan_Suc_shift) simp
  finally show ?thesis by (simp add: down_sum_def)
qed

lemma win_sum_slide:
  "win_sum r f (Suc k) + out_sum r f k = win_sum r f k + in_sum r f k + f (k + 2 * r + 1)"
  using up_sum_slide [of r f k] down_sum_slide [of r f k] by (simp add: win_sum_def)

lemma out_sum_le_win_sum: "out_sum r f k \<le> win_sum r f k"
proof -
  have "out_sum r f k \<le> up_sum r f k"
    unfolding out_sum_def up_sum_def by (rule sum_mono) simp
  then show ?thesis by (simp add: win_sum_def)
qed

lemma out_sum_bound: "(\<And>i. f i \<le> c) \<Longrightarrow> out_sum r f k \<le> c * (r + 1)"
proof -
  assume h: "\<And>i. f i \<le> c"
  have "out_sum r f k \<le> (\<Sum>j<r + 1. c)"
    unfolding out_sum_def by (rule sum_mono) (rule h)
  then show ?thesis by (simp add: mult.commute)
qed

lemma in_sum_bound: "(\<And>i. f i \<le> c) \<Longrightarrow> in_sum r f k \<le> c * r"
proof -
  assume h: "\<And>i. f i \<le> c"
  have "in_sum r f k \<le> (\<Sum>j<r. c)"
    unfolding in_sum_def by (rule sum_mono) (rule h)
  then show ?thesis by (simp add: mult.commute)
qed

lemma win_sum_const: "win_sum r (\<lambda>i. c) k = c * ((r + 1) * (r + 1))"
proof (induction r)
  case 0
  then show ?case by (simp add: win_sum_def up_sum_def down_sum_def)
next
  case (Suc r)
  have "down_sum (Suc r) (\<lambda>i. c) k = down_sum r (\<lambda>i. c) k + (r + 1) * c"
    unfolding down_sum_def by (subst sum.lessThan_Suc_shift) simp
  moreover have "up_sum (Suc r) (\<lambda>i. c) k = up_sum r (\<lambda>i. c) k + (r + 2) * c"
    by (simp add: up_sum_def)
  ultimately show ?case using Suc by (simp add: win_sum_def algebra_simps)
qed

lemma win_sum_mono: "(\<And>i. f i \<le> g i) \<Longrightarrow> win_sum r f k \<le> win_sum r g k"
  unfolding win_sum_def up_sum_def down_sum_def
  by (intro add_mono sum_mono mult_le_mono2) 

lemma win_sum_bound: "(\<And>i. f i \<le> c) \<Longrightarrow> win_sum r f k \<le> c * ((r + 1) * (r + 1))"
  using win_sum_mono [of f "\<lambda>i. c" r k] by (simp add: win_sum_const)

subsection \<open>What the tables guarantee\<close>

lemma entries_ok_nth:
  "entries_ok r0 ms shs \<Longrightarrow> i < length ms \<Longrightarrow> i < length shs \<Longrightarrow> entry_ok (r0 + i) (ms ! i) (shs ! i)"
proof (induction r0 ms shs arbitrary: i rule: entries_ok.induct)
  case (1 r m ms sh shs)
  then show ?case by (cases i) auto
qed auto

lemma entries_ok_append:
  "length ms = length shs \<Longrightarrow> entries_ok r ms shs \<Longrightarrow> entries_ok (r + length ms) ms' shs' \<Longrightarrow>
   entries_ok r (ms @ ms') (shs @ shs')"
proof (induction r ms shs rule: entries_ok.induct)
  case (1 r m ms sh shs)
  then show ?case by (simp add: add.assoc add.commute)
qed auto

lemma entries_ok_0:
  "entries_ok 0 [512, 512, 456, 512, 328, 456, 335, 512, 405, 328, 271, 456, 388, 335, 292, 512]
     [9, 11, 12, 13, 13, 14, 14, 15, 15, 15, 15, 16, 16, 16, 16, 17]"
  by (simp add: entry_ok_def)

lemma entries_ok_16:
  "entries_ok 16 [454, 405, 364, 328, 298, 271, 496, 456, 420, 388, 360, 335, 312, 292, 273, 512]
     [17, 17, 17, 17, 17, 17, 18, 18, 18, 18, 18, 18, 18, 18, 18, 19]"
  by (simp add: entry_ok_def)

lemma entries_ok_32:
  "entries_ok 32 [482, 454, 428, 405, 383, 364, 345, 328, 312, 298, 284, 271, 259, 496, 475, 456]
     [19, 19, 19, 19, 19, 19, 19, 19, 19, 19, 19, 19, 19, 20, 20, 20]"
  by (simp add: entry_ok_def)

lemma entries_ok_48:
  "entries_ok 48 [437, 420, 404, 388, 374, 360, 347, 335, 323, 312, 302, 292, 282, 273, 265, 512]
     [20, 20, 20, 20, 20, 20, 20, 20, 20, 20, 20, 20, 20, 20, 20, 21]"
  by (simp add: entry_ok_def)

lemma entries_ok_64:
  "entries_ok 64 [497, 482, 468, 454, 441, 428, 417, 405, 394, 383, 373, 364, 354, 345, 337, 328]
     [21, 21, 21, 21, 21, 21, 21, 21, 21, 21, 21, 21, 21, 21, 21, 21]"
  by (simp add: entry_ok_def)

lemma entries_ok_80:
  "entries_ok 80 [320, 312, 305, 298, 291, 284, 278, 271, 265, 259, 507, 496, 485, 475, 465, 456]
     [21, 21, 21, 21, 21, 21, 21, 21, 21, 21, 22, 22, 22, 22, 22, 22]"
  by (simp add: entry_ok_def)

lemma entries_ok_96:
  "entries_ok 96 [446, 437, 428, 420, 412, 404, 396, 388, 381, 374, 367, 360, 354, 347, 341, 335]
     [22, 22, 22, 22, 22, 22, 22, 22, 22, 22, 22, 22, 22, 22, 22, 22]"
  by (simp add: entry_ok_def)

lemma entries_ok_112:
  "entries_ok 112 [329, 323, 318, 312, 307, 302, 297, 292, 287, 282, 278, 273, 269, 265, 261, 512]
     [22, 22, 22, 22, 22, 22, 22, 22, 22, 22, 22, 22, 22, 22, 22, 23]"
  by (simp add: entry_ok_def)

lemma entries_ok_128:
  "entries_ok 128 [505, 497, 489, 482, 475, 468, 461, 454, 447, 441, 435, 428, 422, 417, 411, 405]
     [23, 23, 23, 23, 23, 23, 23, 23, 23, 23, 23, 23, 23, 23, 23, 23]"
  by (simp add: entry_ok_def)

lemma entries_ok_144:
  "entries_ok 144 [399, 394, 389, 383, 378, 373, 368, 364, 359, 354, 350, 345, 341, 337, 332, 328]
     [23, 23, 23, 23, 23, 23, 23, 23, 23, 23, 23, 23, 23, 23, 23, 23]"
  by (simp add: entry_ok_def)

lemma entries_ok_160:
  "entries_ok 160 [324, 320, 316, 312, 309, 305, 301, 298, 294, 291, 287, 284, 281, 278, 274, 271]
     [23, 23, 23, 23, 23, 23, 23, 23, 23, 23, 23, 23, 23, 23, 23, 23]"
  by (simp add: entry_ok_def)

lemma entries_ok_176:
  "entries_ok 176 [268, 265, 262, 259, 257, 507, 501, 496, 491, 485, 480, 475, 470, 465, 460, 456]
     [23, 23, 23, 23, 23, 24, 24, 24, 24, 24, 24, 24, 24, 24, 24, 24]"
  by (simp add: entry_ok_def)

lemma entries_ok_192:
  "entries_ok 192 [451, 446, 442, 437, 433, 428, 424, 420, 416, 412, 408, 404, 400, 396, 392, 388]
     [24, 24, 24, 24, 24, 24, 24, 24, 24, 24, 24, 24, 24, 24, 24, 24]"
  by (simp add: entry_ok_def)

lemma entries_ok_208:
  "entries_ok 208 [385, 381, 377, 374, 370, 367, 363, 360, 357, 354, 350, 347, 344, 341, 338, 335]
     [24, 24, 24, 24, 24, 24, 24, 24, 24, 24, 24, 24, 24, 24, 24, 24]"
  by (simp add: entry_ok_def)

lemma entries_ok_224:
  "entries_ok 224 [332, 329, 326, 323, 320, 318, 315, 312, 310, 307, 304, 302, 299, 297, 294, 292]
     [24, 24, 24, 24, 24, 24, 24, 24, 24, 24, 24, 24, 24, 24, 24, 24]"
  by (simp add: entry_ok_def)

lemma entries_ok_240:
  "entries_ok 240 [289, 287, 285, 282, 280, 278, 275, 273, 271, 269, 267, 265, 263, 261, 259]
     [24, 24, 24, 24, 24, 24, 24, 24, 24, 24, 24, 24, 24, 24, 24]"
  by (simp add: entry_ok_def)

lemma entries_ok_app:
  "entries_ok r ms shs \<Longrightarrow> entries_ok r' ms' shs' \<Longrightarrow> length ms = length shs \<Longrightarrow>
   r' = r + length ms \<Longrightarrow> entries_ok r (ms @ ms') (shs @ shs')"
  by (simp add: entries_ok_append)

lemma tables_ok: "entries_ok 0 stackblur_mul stackblur_shr"
proof -
  have "entries_ok 0
      ([512, 512, 456, 512, 328, 456, 335, 512, 405, 328, 271, 456, 388, 335, 292, 512] @
       [454, 405, 364, 328, 298, 271, 496, 456, 420, 388, 360, 335, 312, 292, 273, 512] @
       [482, 454, 428, 405, 383, 364, 345, 328, 312, 298, 284, 271, 259, 496, 475, 456] @
       [437, 420, 404, 388, 374, 360, 347, 335, 323, 312, 302, 292, 282, 273, 265, 512] @
       [497, 482, 468, 454, 441, 428, 417, 405, 394, 383, 373, 364, 354, 345, 337, 328] @
       [320, 312, 305, 298, 291, 284, 278, 271, 265, 259, 507, 496, 485, 475, 465, 456] @
       [446, 437, 428, 420, 412, 404, 396, 388, 381, 374, 367, 360, 354, 347, 341, 335] @
       [329, 323, 318, 312, 307, 302, 297, 292, 287, 282, 278, 273, 269, 265, 261, 512] @
       [505, 497, 489, 482, 475, 468, 461, 454, 447, 441, 435, 428, 422, 417, 411, 405] @
       [399, 394, 389, 383, 378, 373, 368, 364, 359, 354, 350, 345, 341, 337, 332, 328] @
       [324, 320, 316, 312, 309, 305, 301, 298, 294, 291, 287, 284, 281, 278, 274, 271] @
       [268, 265, 262, 259, 257, 507, 501, 496, 491, 485, 480, 475, 470, 465, 460, 456] @
       [451, 446, 442, 437, 433, 428, 424, 420, 416, 412, 408, 404, 400, 396, 392, 388] @
       [385, 381, 377, 374, 370, 367, 363, 360, 357, 354, 350, 347, 344, 341, 338, 335] @
       [332, 329, 326, 323, 320, 318, 315, 312, 310, 307, 304, 302, 299, 297, 294, 292] @
       [289, 287, 285, 282, 280, 278, 275, 273, 271, 269, 267, 265, 263, 261, 259])
      ([9, 11, 12, 13, 13, 14, 14, 15, 15, 15, 15, 16, 16, 16, 16, 17] @
       [17, 17, 17, 17, 17, 17, 18, 18, 18, 18, 18, 18, 18, 18, 18, 19] @
       [19, 19, 19, 19, 19, 19, 19, 19, 19, 19, 19, 19, 19, 20, 20, 20] @
       [20, 20, 20, 20, 20, 20, 20, 20, 20, 20, 20, 20, 20, 20, 20, 21] @
       [21, 21, 21, 21, 21, 21, 21, 21, 21, 21, 21, 21, 21, 21, 21, 21] @
       [21, 21, 21, 21, 21, 21, 21, 21, 21, 21, 22, 22, 22, 22, 22, 22] @
       [22, 22, 22, 22, 22, 22, 22, 22, 22, 22, 22, 22, 22, 22, 22, 22] @
       [22, 22, 22, 22, 22, 22, 22, 22, 22, 22, 22, 22, 22, 22, 22, 23] @
       [23, 23, 23, 23, 23, 23, 23, 23, 23, 23, 23, 23, 23, 23, 23, 23] @
       [23, 23, 23, 23, 23, 23, 23, 23, 23, 23, 23, 23, 23, 23, 23, 23] @
       [23, 23, 23, 23, 23, 23, 23, 23, 23, 23, 23, 23, 23, 23, 23, 23] @
       [23, 23, 23, 23, 23, 24, 24, 24, 24, 24, 24, 24, 24, 24, 24, 24] @
       [24, 24, 24, 24, 24, 24, 24, 24, 24, 24, 24, 24, 24, 24, 24, 24] @
       [24, 24, 24, 24, 24, 24, 24, 24, 24, 24, 24, 24, 24, 24, 24, 24] @
       [24, 24, 24, 24, 24, 24, 24, 24, 24, 24, 24, 24, 24, 24, 24, 24] @
       [24, 24, 24, 24, 24, 24, 24, 24, 24, 24, 24, 24, 24, 24, 24])"
    apply (rule entries_ok_app [OF entries_ok_0], rule entries_ok_app [OF entries_ok_16], rule entries_ok_app [OF entries_ok_32], rule entries_ok_app [OF entries_ok_48], rule entries_ok_app [OF entries_ok_64], rule entries_ok_app [OF entries_ok_80], rule entries_ok_app [OF entries_ok_96], rule entries_ok_app [OF entries_ok_112], rule entries_ok_app [OF entries_ok_128], rule entries_ok_app [OF entries_ok_144], rule entries_ok_app [OF entries_ok_160], rule entries_ok_app [OF entries_ok_176], rule entries_ok_app [OF entries_ok_192], rule entries_ok_app [OF entries_ok_208], rule entries_ok_app [OF entries_ok_224],
           rule entries_ok_240)
    apply simp_all
    done
  then show ?thesis by (simp add: stackblur_mul_def stackblur_shr_def)
qed

lemma table_lengths: "length stackblur_mul = 255" "length stackblur_shr = 255"
  by (simp_all add: stackblur_mul_def stackblur_shr_def)

lemma table_entry_ok: "r < 255 \<Longrightarrow> entry_ok r (stackblur_mul ! r) (stackblur_shr ! r)"
  using entries_ok_nth [OF tables_ok, of r] by (simp add: table_lengths)

lemma u32_sub_id: "b \<le> a \<Longrightarrow> a < 4294967296 \<Longrightarrow> u32 (a + (4294967296 - b)) = a - b"
  using ul_sub_id [of b a] by (simp add: ul_sub_def u32_def)

subsection \<open>Scaling\<close>

lemma scaled_byte: "scaled m sh t \<le> 255"
  by (simp add: scaled_def u8_def clamp_def)

lemma entry_ok_prod:
  assumes "entry_ok r m sh" "t \<le> 255 * ((r + 1) * (r + 1))"
  shows "t * m < 4294967296"
proof -
  have "t * m \<le> 255 * ((r + 1) * (r + 1)) * m" using assms(2) by (rule mult_le_mono1)
  moreover have "255 * ((r + 1) * (r + 1)) * m < 4294967296"
    using assms(1) unfolding entry_ok_def by blast
  ultimately show ?thesis by (rule le_less_trans)
qed

lemma entry_ok_pre_clamp:
  assumes "entry_ok r m sh" "t \<le> 255 * ((r + 1) * (r + 1))"
  shows "pre_clamp m sh t \<le> 255"
proof -
  define A where "A = (r + 1) * (r + 1)"
  have a: "2 ^ sh \<le> m * A" "255 * (m * A - 2 ^ sh) < 2 ^ sh"
    using assms(1) by (simp_all add: entry_ok_def A_def)
  have "t * m \<le> 255 * A * m" using assms(2) unfolding A_def by (rule mult_le_mono1)
  also have "255 * A * m = 255 * 2 ^ sh + 255 * (m * A - 2 ^ sh)"
    using a(1) by (simp add: algebra_simps)
  also have "\<dots> < 256 * 2 ^ sh" using a(2) by simp
  finally have "t * m div 2 ^ sh < 256"
    by (simp add: less_mult_imp_div_less)
  moreover have "ul_mul t m = t * m"
    using entry_ok_prod [OF assms] by (rule ul_mul_id)
  ultimately show ?thesis by (simp add: pre_clamp_def)
qed

lemma entry_ok_exact:
  assumes "entry_ok r m sh" "v \<le> 255"
  shows "pre_clamp m sh (v * ((r + 1) * (r + 1))) = v"
proof -
  define A where "A = (r + 1) * (r + 1)"
  define D where "D = m * A - 2 ^ sh"
  have a: "2 ^ sh \<le> m * A" "255 * D < 2 ^ sh"
    using assms(1) by (simp_all add: entry_ok_def A_def D_def)
  have mA: "m * A = 2 ^ sh + D" using a(1) by (simp add: D_def)
  have "v * D \<le> 255 * D" using assms(2) by (rule mult_le_mono1)
  then have vD: "v * D < 2 ^ sh" using a(2) by (rule le_less_trans)
  have "v * A * m = v * (m * A)" by (simp add: algebra_simps)
  also have "\<dots> = v * D + v * 2 ^ sh" unfolding mA by (simp add: algebra_simps)
  finally have "v * A * m div 2 ^ sh = v" using vD by simp
  moreover have "v * A \<le> 255 * A" using assms(2) by (rule mult_le_mono1)
  then have "ul_mul (v * A) m = v * A * m"
    using entry_ok_prod [OF assms(1), of "v * A"] by (simp add: A_def ul_mul_id)
  ultimately show ?thesis by (simp add: pre_clamp_def A_def)
qed

lemma scaled_exact:
  assumes "entry_ok r m sh" "v \<le> 255"
  shows "scaled m sh (v * ((r + 1) * (r + 1))) = v"
  unfolding scaled_def entry_ok_exact [OF assms] using assms(2) by (simp add: clamp_def u8_def)

subsection \<open>The samples a line feeds into the window\<close>

lemma line_ok_index: "line_ok b start stride n \<Longrightarrow> i < n \<Longrightarrow> start + i * stride < length b"
proof -
  assume h: "line_ok b start stride n" "i < n"
  then have "i \<le> n - 1" by simp
  then have "i * stride \<le> (n - 1) * stride" by (rule mult_le_mono1)
  moreover have "start + (n - 1) * stride < length b" using h(1) unfolding line_ok_def by blast
  ultimately show ?thesis by linarith
qed

lemma ext_byte: "line_ok b start stride n \<Longrightarrow> ext b start stride n r j \<le> 255"
proof -
  assume h: "line_ok b start stride n"
  then have "1 \<le> n" unfolding line_ok_def by blast
  then have "min (j - r) (n - 1) < n" by arith
  from line_ok_index [OF h this] show ?thesis using h by (simp add: ext_def line_ok_def)
qed

lemma stream_byte: "line_ok b start stride n \<Longrightarrow> stream b start stride n r m sh j \<le> 255"
  by (simp add: stream_def ext_byte scaled_byte)

lemma out_sum_cong: "(\<And>j. j \<le> r \<Longrightarrow> f (k + j) = g (k + j)) \<Longrightarrow> out_sum r f k = out_sum r g k"
  unfolding out_sum_def by (rule sum.cong) auto

lemma in_sum_cong: "(\<And>j. j \<le> 2 * r \<Longrightarrow> f (k + j) = g (k + j)) \<Longrightarrow> in_sum r f k = in_sum r g k"
proof -
  assume h: "\<And>j. j \<le> 2 * r \<Longrightarrow> f (k + j) = g (k + j)"
  have "f (k + r + 1 + j) = g (k + r + 1 + j)" if "j < r" for j
    using h [of "r + 1 + j"] that by (simp add: add.assoc)
  then show ?thesis unfolding in_sum_def by (intro sum.cong) auto
qed

lemma win_sum_cong: "(\<And>j. j \<le> 2 * r \<Longrightarrow> f (k + j) = g (k + j)) \<Longrightarrow> win_sum r f k = win_sum r g k"
proof -
  assume h: "\<And>j. j \<le> 2 * r \<Longrightarrow> f (k + j) = g (k + j)"
  have "f (k + r + 1 + j) = g (k + r + 1 + j)" if "j < r" for j
    using h [of "r + 1 + j"] that by (simp add: add.assoc)
  moreover have "f (k + j) = g (k + j)" if "j < r + 1" for j
    using h [of j] that by simp
  ultimately show ?thesis unfolding win_sum_def up_sum_def down_sum_def
    by (intro arg_cong2 [where f = "(+)"] sum.cong) auto
qed

lemma win_sum_stream:
  "k < n \<Longrightarrow> win_sum r (stream b start stride n r m sh) k = win_sum r (ext b start stride n r) k"
  by (rule win_sum_cong) (simp add: stream_def)

lemma out_sum_member: "f k \<le> out_sum r f k"
proof -
  have "out_sum r f k = f k + (\<Sum>j<r. f (k + Suc j))"
    unfolding out_sum_def using sum.lessThan_Suc_shift [of "\<lambda>j. f (k + j)" r] by simp
  then show ?thesis by simp
qed

lemma mod_shift_neq:
  fixes k d dv :: nat
  assumes "0 < d" "d < dv"
  shows "(k + d) mod dv \<noteq> k mod dv"
proof
  assume "(k + d) mod dv = k mod dv"
  then have "dv dvd (k + d) - k" by (subst mod_eq_dvd_iff_nat [symmetric]) simp_all
  then show False using assms by (simp add: nat_dvd_not_less)
qed

lemma blur_line_split:
  "blur_line radius mul_sum shr_sum dv n nm stride start s0 =
     line_init radius nm stride start s0 \<bind> for_loop [0..<n] (emit radius mul_sum shr_sum dv nm stride)"
  by (simp add: blur_line_def line_init_def Let_def)

lemma sum_le_const: "(\<And>j. j < n \<Longrightarrow> f j \<le> K) \<Longrightarrow> (\<Sum>j<n. f j) \<le> n * (K::nat)"
  using sum_bounded_above [of "{..<n}" f K] by simp

subsection \<open>The first loop\<close>

lemma fill_out_step:
  assumes ok: "line_ok b start stride n" and r: "r < 255" and i: "i \<le> r"
    and inv: "fill_out_inv b start stride n r i s"
  shows "\<exists>s'. fill_out i s = Some s' \<and> fill_out_inv b start stride n r (Suc i) s'"
proof -
  define E where "E = ext b start stride n r"
  have Eb: "E j \<le> 255" for j unfolding E_def by (rule ext_byte [OF ok])
  have f: "length (stack s) = 2 * r + 1" "mem s = b" "src_ptr s = start"
    "\<forall>j<i. stack s ! j = E j" "sumv s = (\<Sum>j<i. (j + 1) * E j)" "sum_out s = (\<Sum>j<i. E j)"
    "sum_in s = 0"
    using inv by (simp_all add: fill_out_inv_def E_def)
  have st: "start < length b" using line_ok_index [OF ok, of 0] ok by (simp add: line_ok_def)
  have v: "b ! start = E i" using i by (simp add: E_def ext_def)
  have t: "(j + 1) * E j \<le> 255 * 255" if "j < i" for j
    using that i r Eb [of j] by (intro mult_mono) auto
  have s1: "(\<Sum>j<i. (j + 1) * E j) \<le> i * (255 * 255)" by (rule sum_le_const) (rule t)
  have s2: "(\<Sum>j<i. E j) \<le> i * 255" by (rule sum_le_const) (rule Eb)
  have p1: "E i * (i + 1) \<le> 255 * 255" using i r Eb [of i] by (intro mult_mono) auto
  have i255: "i * (255 * 255) \<le> 255 * (255 * 255)" "i * 255 \<le> 255 * 255"
    using i r by simp_all
  have a1: "ul_add (sumv s) (u32 (E i * u32 (i + 1))) = (\<Sum>j<Suc i. (j + 1) * E j)"
  proof -
    have "u32 (i + 1) = i + 1" using i r by (intro u32_id) simp
    moreover have "u32 (E i * (i + 1)) = E i * (i + 1)" using p1 by (intro u32_id) simp
    moreover have "ul_add (sumv s) (E i * (i + 1)) = sumv s + E i * (i + 1)"
      using s1 p1 i255 unfolding f(5) by (intro ul_add_id) simp
    ultimately show ?thesis by (simp add: f(5) mult.commute)
  qed
  have a2: "ul_add (sum_out s) (E i) = (\<Sum>j<Suc i. E j)"
  proof -
    have "ul_add (sum_out s) (E i) = sum_out s + E i"
      using s2 Eb [of i] i255 unfolding f(6) by (intro ul_add_id) simp
    then show ?thesis by (simp add: f(6))
  qed
  define s' where "s' = s\<lparr>stack := (stack s)[i := E i], sumv := (\<Sum>j<Suc i. (j + 1) * E j),
      sum_out := (\<Sum>j<Suc i. E j)\<rparr>"
  have "fill_out i s = Some s'"
    using st i a1 a2 by (simp add: fill_out_def load_def store_def f(1,2,3) v s'_def)
  moreover have "fill_out_inv b start stride n r (Suc i) s'"
  proof -
    have il: "i < length (stack s)" using f(1) i by simp
    show ?thesis unfolding fill_out_inv_def E_def [symmetric] s'_def
      using f il by (auto simp: nth_list_update less_Suc_eq)
  qed
  ultimately show ?thesis by blast
qed

lemma fill_out_loop:
  assumes ok: "line_ok b start stride n" and r: "r < 255"
    and s: "length (stack s) = 2 * r + 1" "mem s = b" "src_ptr s = start"
      "sumv s = 0" "sum_out s = 0" "sum_in s = 0"
    and k: "k \<le> r + 1"
  shows "\<exists>s'. for_loop [0..<k] fill_out s = Some s' \<and> fill_out_inv b start stride n r k s'"
proof (rule for_loop_inv)
  show "0 \<le> k" by simp
  show "fill_out_inv b start stride n r 0 s" using s by (simp add: fill_out_inv_def)
  fix i t
  assume "i < k" "fill_out_inv b start stride n r i t"
  then show "\<exists>t'. fill_out i t = Some t' \<and> fill_out_inv b start stride n r (Suc i) t'"
    using k by (intro fill_out_step [OF ok r]) simp_all
qed

subsection \<open>The second loop\<close>

lemma fill_out_inv_final:
  "fill_out_inv b start stride n r (r + 1) s \<Longrightarrow> fill_in_inv b start stride n r 1 s"
  by (simp add: fill_out_inv_def fill_in_inv_def up_sum_def out_sum_def)

lemma fill_in_step:
  assumes ok: "line_ok b start stride n" and r: "r < 255" and i: "1 \<le> i" "i \<le> r"
    and inv: "fill_in_inv b start stride n r i s"
  shows "\<exists>s'. fill_in r (n - 1) stride i s = Some s' \<and> fill_in_inv b start stride n r (Suc i) s'"
proof -
  define E where "E = ext b start stride n r"
  have Eb: "E j \<le> 255" for j unfolding E_def by (rule ext_byte [OF ok])
  have f: "length (stack s) = 2 * r + 1" "mem s = b"
    "src_ptr s = start + min (i - 1) (n - 1) * stride"
    "\<forall>j<r + i. stack s ! j = E j"
    "sumv s = up_sum r E 0 + (\<Sum>j<i - 1. (r - j) * E (r + 1 + j))"
    "sum_in s = (\<Sum>j<i - 1. E (r + 1 + j))"
    "sum_out s = out_sum r E 0"
    using inv by (simp_all add: fill_in_inv_def E_def)
  have n1: "1 \<le> n" using ok by (simp add: line_ok_def)
  define p where "p = (if i \<le> n - 1 then src_ptr s + stride else src_ptr s)"
  have p: "p = start + min i (n - 1) * stride"
  proof (cases "i \<le> n - 1")
    case True
    then have "min (i - 1) (n - 1) = i - 1" "min i (n - 1) = i" by simp_all
    moreover have "(i - 1) * stride + stride = i * stride" using i by (cases i) simp_all
    ultimately show ?thesis using True by (simp add: p_def f(3))
  next
    case False
    then have "min (i - 1) (n - 1) = n - 1" "min i (n - 1) = n - 1" by simp_all
    then show ?thesis using False by (simp add: p_def f(3))
  qed
  have pl: "p < length b" unfolding p using n1 by (intro line_ok_index [OF ok]) arith
  have v: "b ! p = E (r + i)" by (simp add: p E_def ext_def)
  have ri: "r + 1 + (i - 1) = r + i" using i by simp
  have t: "(r - j) * E (r + 1 + j) \<le> 255 * 255" for j
    using r Eb [of "r + 1 + j"] by (intro mult_mono) auto
  have t': "(j + 1) * E (0 + j) \<le> 255 * 255" if "j < r + 1" for j
    using r that Eb [of "0 + j"] by (intro mult_mono) auto
  have s0: "up_sum r E 0 \<le> (r + 1) * (255 * 255)"
    unfolding up_sum_def by (rule sum_le_const) (rule t')
  have s1: "(\<Sum>j<i - 1. (r - j) * E (r + 1 + j)) \<le> (i - 1) * (255 * 255)"
    by (rule sum_le_const) (rule t)
  have s2: "(\<Sum>j<i - 1. E (r + 1 + j)) \<le> (i - 1) * 255" by (rule sum_le_const) (rule Eb)
  have b0: "(r + 1) * (255 * 255) \<le> 255 * (255 * 255)" "(i - 1) * (255 * 255) \<le> 255 * (255 * 255)"
    "(i - 1) * 255 \<le> 255 * 255"
    using i r by simp_all
  have w: "u32 (u32 (r + 1) + (4294967296 - i)) = r + 1 - i"
  proof -
    have "u32 (r + 1) = r + 1" using r by (intro u32_id) simp
    moreover have "u32 (r + 1 + (4294967296 - i)) = r + 1 - i" using i r by (intro u32_sub_id) simp_all
    ultimately show ?thesis by simp
  qed
  have p1: "E (r + i) * (r + 1 - i) \<le> 255 * 255" using r Eb [of "r + i"] by (intro mult_mono) auto
  have a1: "ul_add (sumv s) (u32 (E (r + i) * u32 (u32 (r + 1) + (4294967296 - i)))) =
      up_sum r E 0 + (\<Sum>j<Suc i - 1. (r - j) * E (r + 1 + j))"
  proof -
    have "u32 (E (r + i) * (r + 1 - i)) = E (r + i) * (r + 1 - i)" using p1 by (intro u32_id) simp
    moreover have "ul_add (sumv s) (E (r + i) * (r + 1 - i)) = sumv s + E (r + i) * (r + 1 - i)"
      using s0 s1 p1 b0 unfolding f(5) by (intro ul_add_id) simp
    moreover have "(\<Sum>j<Suc i - 1. (r - j) * E (r + 1 + j)) =
        (\<Sum>j<i - 1. (r - j) * E (r + 1 + j)) + (r - (i - 1)) * E (r + 1 + (i - 1))"
      using i by (cases i) simp_all
    moreover have "r - (i - 1) = r + 1 - i" using i by simp
    ultimately show ?thesis unfolding w ri by (simp add: f(5) mult.commute)
  qed
  have a2: "ul_add (sum_in s) (E (r + i)) = (\<Sum>j<Suc i - 1. E (r + 1 + j))"
  proof -
    have "ul_add (sum_in s) (E (r + i)) = sum_in s + E (r + i)"
      using s2 Eb [of "r + i"] b0 unfolding f(6) by (intro ul_add_id) simp
    moreover have "(\<Sum>j<Suc i - 1. E (r + 1 + j)) = (\<Sum>j<i - 1. E (r + 1 + j)) + E (r + 1 + (i - 1))"
      using i by (cases i) simp_all
    ultimately show ?thesis unfolding ri by (simp add: f(6))
  qed
  have ir: "u32 (i + r) = i + r" using i r by (intro u32_id) simp
  define s' where "s' = s\<lparr>src_ptr := p, stack := (stack s)[i + r := E (r + i)],
      sumv := up_sum r E 0 + (\<Sum>j<Suc i - 1. (r - j) * E (r + 1 + j)),
      sum_in := (\<Sum>j<Suc i - 1. E (r + 1 + j))\<rparr>"
  have "fill_in r (n - 1) stride i s = Some s'"
    unfolding fill_in_def p_def [symmetric] Let_def
    using pl i a1 a2 by (simp add: load_def store_def f(1,2) v s'_def ir)
  moreover have "fill_in_inv b start stride n r (Suc i) s'"
  proof -
    have il: "i + r < length (stack s)" using f(1) i by simp
    show ?thesis unfolding fill_in_inv_def E_def [symmetric] s'_def
      using f il p by (auto simp: nth_list_update less_Suc_eq add.commute)
  qed
  ultimately show ?thesis by blast
qed

lemma fill_in_loop:
  assumes ok: "line_ok b start stride n" and r: "r < 255"
    and inv: "fill_in_inv b start stride n r 1 s" and k: "1 \<le> k" "k \<le> r + 1"
  shows "\<exists>s'. for_loop [1..<k] (fill_in r (n - 1) stride) s = Some s' \<and> fill_in_inv b start stride n r k s'"
proof (rule for_loop_inv)
  show "1 \<le> k" by (rule k)
  show "fill_in_inv b start stride n r 1 s" by (rule inv)
  fix i t
  assume "1 \<le> i" "i < k" "fill_in_inv b start stride n r i t"
  then show "\<exists>t'. fill_in r (n - 1) stride i t = Some t' \<and> fill_in_inv b start stride n r (Suc i) t'"
    using k by (intro fill_in_step [OF ok r]) simp_all
qed

subsection \<open>The third loop\<close>

lemma stack_start_eq:
  fixes k r :: nat
  assumes "r < 255"
  defines "dv \<equiv> 2 * r + 1"
  defines "a \<equiv> u32 (u32 ((k + r) mod dv + dv) + (4294967296 - r))"
  shows "(if a \<ge> dv then u32 (a + (4294967296 - dv)) else a) = k mod dv"
proof -
  define q where "q = k mod dv"
  define t where "t = (k + r) mod dv"
  have dvb: "dv \<le> 509" "r < dv" "dv = 2 * r + 1" using assms(1) by (simp_all add: dv_def)
  have q: "q < dv" by (simp add: q_def dv_def)
  have sp: "t = (q + r) mod dv" by (simp add: q_def t_def mod_add_left_eq)
  have spl: "t < dv" by (simp add: t_def dv_def)
  have "u32 (t + dv) = t + dv"
    using spl dvb by (intro u32_id) arith
  moreover have "u32 (t + dv + (4294967296 - r)) = t + dv - r"
    using spl dvb by (intro u32_sub_id) arith+
  ultimately have a: "a = t + dv - r" by (simp add: a_def t_def)
  show ?thesis
  proof (cases "q + r < dv")
    case True
    then have "t = q + r" by (simp add: sp)
    then have a': "a = q + dv" using a by simp
    then have "u32 (a + (4294967296 - dv)) = a - dv"
      using q dvb by (intro u32_sub_id) arith+
    then show ?thesis using a' by (simp add: q_def)
  next
    case False
    then have "(q + r) mod dv = (q + r - dv) mod dv"
      by (simp add: le_mod_geq)
    moreover have "q + r - dv < dv" using q dvb by arith
    ultimately have "t = q + r - dv" using sp by simp
    then have "a = q" "q < dv" using a False q dvb by arith+
    then show ?thesis by (simp add: q_def)
  qed
qed

lemma sp_next_eq:
  fixes k r :: nat
  assumes "r < 255"
  defines "dv \<equiv> 2 * r + 1"
  defines "a \<equiv> u32 ((k + r) mod dv + 1)"
  shows "(if a \<ge> dv then 0 else a) = (Suc k + r) mod dv"
proof -
  define t where "t = (k + r) mod dv"
  have dvb: "dv \<le> 509" using assms(1) by (simp add: dv_def)
  have spl: "t < dv" by (simp add: t_def dv_def)
  have "u32 (t + 1) = t + 1" using spl dvb by (intro u32_id) arith
  then have a: "a = t + 1" by (simp add: a_def t_def)
  have "(Suc k + r) mod dv = Suc t mod dv"
    unfolding t_def by (simp add: mod_Suc_eq)
  then show ?thesis using spl a by (auto simp: not_le mod_Suc)
qed

lemma emit_step:
  assumes ok: "line_ok b start stride n" and r: "r < 255" and e: "entry_ok r m sh" and k: "k < n"
    and inv: "emit_inv r m sh b start stride n k s"
  shows "\<exists>s'. emit r m sh (2 * r + 1) (n - 1) stride k s = Some s' \<and>
     emit_inv r m sh b start stride n (Suc k) s'"
proof -
  define F where "F = stream b start stride n r m sh"
  define E where "E = ext b start stride n r"
  define dv where "dv = 2 * r + 1"
  have dvb: "dv \<le> 509" "0 < dv" "r < dv" using r by (simp_all add: dv_def)
  have Fb: "F j \<le> 255" for j unfolding F_def by (rule stream_byte [OF ok])
  have f: "length (stack s) = dv" "length (mem s) = length b"
    "sp s = (k + r) mod dv"
    "\<forall>j<dv. stack s ! ((k + j) mod dv) = F (k + j)"
    "sumv s = win_sum r F k" "sum_out s = out_sum r F k" "sum_in s = in_sum r F k"
    "xp s = min (k + r) (n - 1)"
    "src_ptr s = start + min (k + r) (n - 1) * stride"
    "dst_ptr s = start + k * stride"
    "\<forall>i<n. mem s ! (start + i * stride) =
        (if i < k then scaled m sh (win_sum r E i) else b ! (start + i * stride))"
    "\<forall>p<length b. (\<forall>i<n. p \<noteq> start + i * stride) \<longrightarrow> mem s ! p = b ! p"
    using inv unfolding emit_inv_def F_def [symmetric] E_def [symmetric] dv_def [symmetric]
    by blast+
  have n1: "1 \<le> n" "n < 4294967296" "1 \<le> stride" using ok by (simp_all add: line_ok_def)
  have idx: "start + i * stride < length b" if "i < n" for i
    using line_ok_index [OF ok that] .
  have inj: "start + i * stride = start + j * stride \<longleftrightarrow> i = j" for i j
    using n1(3) by simp
  \<comment> \<open>the sample written\<close>
  have W: "win_sum r F j \<le> 255 * ((r + 1) * (r + 1))" for j
    by (rule win_sum_bound) (rule Fb)
  have Wlt: "win_sum r F j < 4294967296" for j
  proof -
    have "(r + 1) * (r + 1) \<le> 255 * 255" using r by (intro mult_mono) simp_all
    then show ?thesis using W [of j] by simp
  qed
  have O: "out_sum r F j \<le> 255 * 255" for j
  proof -
    have "out_sum r F j \<le> 255 * (r + 1)" by (rule out_sum_bound) (rule Fb)
    then show ?thesis using r by simp
  qed
  have I: "in_sum r F j \<le> 255 * 255" for j
  proof -
    have "in_sum r F j \<le> 255 * r" by (rule in_sum_bound) (rule Fb)
    then show ?thesis using r by simp
  qed
  have WE: "win_sum r F k = win_sum r E k"
    unfolding F_def E_def by (rule win_sum_stream [OF k])
  define outv where "outv = scaled m sh (win_sum r E k)"
  have outv: "u8 (clamp (ul_mul (sumv s) m div 2 ^ sh) 0 255) = outv"
    by (simp add: outv_def scaled_def pre_clamp_def f(5) WE)
  define m1 where "m1 = (mem s)[start + k * stride := outv]"
  have st1: "store (mem s) (dst_ptr s) outv = Some m1"
    using idx [OF k] by (simp add: store_def f(2,10) m1_def)
  \<comment> \<open>the oldest cell of the stack\<close>
  have ss: "(if dv \<le> u32 (u32 (sp s + dv) + (4294967296 - r))
             then u32 (u32 (u32 (sp s + dv) + (4294967296 - r)) + (4294967296 - dv))
             else u32 (u32 (sp s + dv) + (4294967296 - r))) = k mod dv"
    unfolding f(3) dv_def by (rule stack_start_eq [OF r])
  have kl: "k mod dv < length (stack s)" using dvb by (simp add: f(1))
  have old: "stack s ! (k mod dv) = F k" using f(4) dvb(2) by (metis add.right_neutral)
  have ld1: "load (stack s) (k mod dv) = Some (F k)" using kl old by (simp add: load_def)
  have so1: "ul_sub (sum_out s) (F k) = out_sum r F k - F k"
    unfolding f(6) using out_sum_member [of F k r] O [of k] by (intro ul_sub_id) simp_all
  have s1: "ul_sub (sumv s) (sum_out s) = win_sum r F k - out_sum r F k"
    unfolding f(5,6) using out_sum_le_win_sum [of r F k] Wlt [of k] by (intro ul_sub_id) simp_all
  \<comment> \<open>the sample read\<close>
  define src1 where "src1 = (if xp s < n - 1 then src_ptr s + stride else src_ptr s)"
  define xp1 where "xp1 = (if xp s < n - 1 then u32 (xp s + 1) else xp s)"
  have xp1: "xp1 = min (Suc k + r) (n - 1)"
  proof (cases "k + r < n - 1")
    case True
    then have "u32 (k + r + 1) = k + r + 1" using n1 by (intro u32_id) arith
    then show ?thesis using True by (simp add: xp1_def f(8))
  next
    case False
    then show ?thesis by (simp add: xp1_def f(8))
  qed
  have src1: "src1 = start + min (Suc k + r) (n - 1) * stride"
    unfolding src1_def f(8,9) by (cases "k + r < n - 1") simp_all
  have src1l: "src1 < length m1"
    unfolding src1 m1_def using n1 f(2) by (simp add: idx)
  define v where "v = F (k + 2 * r + 1)"
  have rd: "m1 ! src1 = v"
  proof (cases "Suc k < n")
    case True
    let ?i = "min (Suc k + r) (n - 1)"
    have i: "?i < n" "\<not> ?i < k" "?i \<noteq> k" using True by simp_all
    have "start + k * stride \<noteq> start + ?i * stride" using i(3) n1(3) by simp
    then have "m1 ! src1 = mem s ! (start + ?i * stride)"
      unfolding src1 m1_def by (rule nth_list_update_neq)
    also have "\<dots> = b ! (start + ?i * stride)" using f(11) i by simp
    also have "\<dots> = E (k + 2 * r + 1)"
    proof -
      have "k + 2 * r + 1 - r = Suc k + r" by simp
      then show ?thesis unfolding E_def ext_def by (simp only:)
    qed
    also have "\<dots> = v" using True by (simp add: v_def F_def E_def stream_def)
    finally show ?thesis .
  next
    case False
    then have kn: "k = n - 1" using k by simp
    then have "src1 = start + k * stride" by (simp add: src1)
    then have "m1 ! src1 = outv" using idx [OF k] by (simp add: m1_def f(2))
    moreover have "v = outv" using kn n1
      by (simp add: v_def F_def stream_def outv_def E_def)
    ultimately show ?thesis by simp
  qed
  have ld2: "load m1 src1 = Some v" using src1l rd by (simp add: load_def)
  define stk where "stk = (stack s)[k mod dv := v]"
  have st2: "store (stack s) (k mod dv) v = Some stk" using kl by (simp add: store_def stk_def)
  have stk: "stk ! ((Suc k + j) mod dv) = F (Suc k + j)" if "j < dv" for j
  proof (cases "j = 2 * r")
    case True
    then have "Suc k + j = k + dv" by (simp add: dv_def)
    then have "(Suc k + j) mod dv = k mod dv" by (simp only: mod_add_self2)
    moreover have "Suc k + j = k + 2 * r + 1" using True by simp
    ultimately show ?thesis using kl by (simp only: stk_def v_def nth_list_update_eq)
  next
    case False
    then have j: "Suc j < dv" using that by (simp add: dv_def)
    then have "(k + Suc j) mod dv \<noteq> k mod dv" by (intro mod_shift_neq) simp_all
    then have "stk ! ((Suc k + j) mod dv) = stack s ! ((k + Suc j) mod dv)"
      by (simp add: stk_def)
    moreover have "stack s ! ((k + Suc j) mod dv) = F (k + Suc j)" using f(4) j by blast
    ultimately show ?thesis by simp
  qed
  \<comment> \<open>the sums\<close>
  have si1: "ul_add (sum_in s) v = in_sum r F k + v"
    unfolding f(7) using I [of k] Fb [of "k + 2 * r + 1"] by (intro ul_add_id) (simp add: v_def)
  have s2: "ul_add (win_sum r F k - out_sum r F k) (in_sum r F k + v) = win_sum r F (Suc k)"
  proof -
    have "win_sum r F k - out_sum r F k + (in_sum r F k + v) = win_sum r F (Suc k)"
      using win_sum_slide [of r F k] out_sum_le_win_sum [of r F k] by (simp add: v_def)
    then show ?thesis using Wlt [of "Suc k"] by (simp add: ul_add_id)
  qed
  have sp1: "(if dv \<le> u32 (sp s + 1) then 0 else u32 (sp s + 1)) = (Suc k + r) mod dv"
    unfolding f(3) dv_def by (rule sp_next_eq [OF r])
  have top: "stk ! ((Suc k + r) mod dv) = F (Suc k + r)" using stk [of r] dvb by simp
  have ld3: "load stk (Suc (k + r) mod dv) = Some (F (Suc (k + r)))"
    using top dvb by (simp add: load_def stk_def f(1))
  have so2: "ul_add (out_sum r F k - F k) (F (Suc (k + r))) = out_sum r F (Suc k)"
  proof -
    have "out_sum r F k - F k + F (Suc k + r) = out_sum r F (Suc k)"
      using out_sum_slide [of r F k] out_sum_member [of F k r] by simp
    then show ?thesis using O [of "Suc k"] by (simp add: ul_add_id)
  qed
  have si2: "ul_sub (in_sum r F k + v) (F (Suc (k + r))) = in_sum r F (Suc k)"
  proof -
    have a: "in_sum r F (Suc k) + F (Suc k + r) = in_sum r F k + v"
      using in_sum_slide [of r F k] by (simp add: v_def)
    then have "F (Suc k + r) \<le> in_sum r F k + v" by simp
    moreover have "in_sum r F k + v < 4294967296" using I [of k] Fb [of "k + 2 * r + 1"] by (simp add: v_def)
    ultimately have "ul_sub (in_sum r F k + v) (F (Suc k + r)) = in_sum r F k + v - F (Suc k + r)"
      by (rule ul_sub_id)
    then show ?thesis using a by simp
  qed
  define s' where "s' = s\<lparr>mem := m1, stack := stk, dst_ptr := dst_ptr s + stride,
      src_ptr := src1, xp := xp1, sp := (Suc k + r) mod dv,
      sumv := win_sum r F (Suc k), sum_out := out_sum r F (Suc k), sum_in := in_sum r F (Suc k)\<rparr>"
  have run: "emit r m sh dv (n - 1) stride k s = Some s'"
    unfolding emit_def Let_def outv ss src1_def [symmetric] xp1_def [symmetric] sp1
    by (simp add: st1 ld1 ld2 st2 ld3 s1 so1 si1 s2 so2 si2 s'_def)
  have mem1: "m1 ! (start + i * stride) =
      (if i < Suc k then scaled m sh (win_sum r E i) else b ! (start + i * stride))" if "i < n" for i
  proof (cases "i = k")
    case True
    then show ?thesis using idx [OF k] by (simp add: m1_def f(2) outv_def)
  next
    case False
    then have "start + k * stride \<noteq> start + i * stride" using n1(3) by simp
    then have "m1 ! (start + i * stride) = mem s ! (start + i * stride)"
      unfolding m1_def by (rule nth_list_update_neq)
    then show ?thesis using f(11) that False by (simp add: less_Suc_eq)
  qed
  have mem2: "m1 ! p = b ! p" if "p < length b" "\<forall>i<n. p \<noteq> start + i * stride" for p
  proof -
    have "start + k * stride \<noteq> p" using that(2) k by blast
    then have "m1 ! p = mem s ! p" unfolding m1_def by (rule nth_list_update_neq)
    then show ?thesis using f(12) that by simp
  qed
  have "emit_inv r m sh b start stride n (Suc k) s'"
    unfolding emit_inv_def F_def [symmetric] E_def [symmetric] dv_def [symmetric]
    using stk mem1 mem2 xp1 src1
    by (simp add: s'_def f(1,2,10) stk_def m1_def)
  then show ?thesis using run unfolding dv_def by blast
qed

subsection \<open>One line\<close>

lemma line_init_ok:
  assumes ok: "line_ok b start stride n" and r: "r < 255"
    and s0: "length (stack s0) = 2 * r + 1" "mem s0 = b"
  shows "\<exists>s. line_init r (n - 1) stride start s0 = Some s \<and> emit_inv r m sh b start stride n 0 s"
proof -
  define E where "E = ext b start stride n r"
  define F where "F = stream b start stride n r m sh"
  define t0 where "t0 = s0\<lparr>sumv := 0, sum_in := 0, sum_out := 0, src_ptr := start\<rparr>"
  have n1: "1 \<le> n" "(n - 1) * stride < 4294967296" using ok by (simp_all add: line_ok_def)
  have "\<exists>s'. for_loop [0..<r + 1] fill_out t0 = Some s' \<and> fill_out_inv b start stride n r (r + 1) s'"
    by (rule fill_out_loop [OF ok r]) (simp_all add: t0_def s0)
  then obtain t1 where t1: "for_loop [0..<r + 1] fill_out t0 = Some t1"
      "fill_out_inv b start stride n r (r + 1) t1"
    by blast
  have "\<exists>s'. for_loop [1..<r + 1] (fill_in r (n - 1) stride) t1 = Some s' \<and>
      fill_in_inv b start stride n r (r + 1) s'"
    by (rule fill_in_loop [OF ok r fill_out_inv_final [OF t1(2)]]) simp_all
  then obtain t2 where t2: "for_loop [1..<r + 1] (fill_in r (n - 1) stride) t1 = Some t2"
      "fill_in_inv b start stride n r (r + 1) t2"
    by blast
  define p where "p = (if r > n - 1 then n - 1 else r)"
  define s where "s = t2\<lparr>sp := r, xp := p, src_ptr := start + u32 (p * stride), dst_ptr := start\<rparr>"
  have run: "line_init r (n - 1) stride start s0 = Some s"
    unfolding line_init_def Let_def t0_def [symmetric] t1(1) bind.bind_lunit t2(1)
      p_def [symmetric] s_def ..
  have f: "length (stack t2) = 2 * r + 1" "mem t2 = b"
    "\<forall>j<r + (r + 1). stack t2 ! j = E j"
    "sumv t2 = up_sum r E 0 + (\<Sum>j<r. (r - j) * E (r + 1 + j))"
    "sum_in t2 = (\<Sum>j<r. E (r + 1 + j))"
    "sum_out t2 = out_sum r E 0"
    using t2(2) by (simp_all add: fill_in_inv_def E_def)
  have pm: "p = min r (n - 1)" by (simp add: p_def min_def)
  have "p * stride \<le> (n - 1) * stride" unfolding pm by (intro mult_le_mono1) simp
  then have "p * stride < 4294967296" using n1(2) by (rule le_less_trans)
  then have up: "u32 (p * stride) = p * stride" by (rule u32_id)
  have FE: "F j = E j" if "j \<le> 2 * r" for j
    using that n1(1) by (simp add: F_def E_def stream_def)
  have "win_sum r F 0 = win_sum r E 0" by (rule win_sum_cong) (simp add: FE)
  moreover have "win_sum r E 0 = sumv t2" by (simp add: f(4) win_sum_def down_sum_def)
  ultimately have a1: "sumv t2 = win_sum r F 0" by simp
  have "out_sum r F 0 = out_sum r E 0" by (rule out_sum_cong) (simp add: FE)
  then have a2: "sum_out t2 = out_sum r F 0" by (simp add: f(6))
  have "in_sum r F 0 = in_sum r E 0" by (rule in_sum_cong) (simp add: FE)
  then have a3: "sum_in t2 = in_sum r F 0" by (simp add: f(5) in_sum_def)
  have a4: "stack t2 ! ((0 + j) mod (2 * r + 1)) = F (0 + j)" if "j < 2 * r + 1" for j
    using that f(3) FE [of j] by simp
  have g: "stack s = stack t2" "mem s = b" "sp s = r" "sumv s = win_sum r F 0"
    "sum_out s = out_sum r F 0" "sum_in s = in_sum r F 0" "dst_ptr s = start"
    by (simp_all add: s_def f(2) a1 a2 a3)
  have g': "xp s = min (0 + r) (n - 1)" "src_ptr s = start + min (0 + r) (n - 1) * stride"
    unfolding s_def up by (simp_all add: pm)
  have "emit_inv r m sh b start stride n 0 s"
    unfolding emit_inv_def F_def [symmetric] E_def [symmetric] g g'
    using a4 by (simp add: f(1))
  then show ?thesis using run by blast
qed

lemma emit_loop:
  assumes ok: "line_ok b start stride n" and r: "r < 255" and e: "entry_ok r m sh"
    and inv: "emit_inv r m sh b start stride n 0 s" and k: "k \<le> n"
  shows "\<exists>s'. for_loop [0..<k] (emit r m sh (2 * r + 1) (n - 1) stride) s = Some s' \<and>
     emit_inv r m sh b start stride n k s'"
proof (rule for_loop_inv)
  show "0 \<le> k" by simp
  show "emit_inv r m sh b start stride n 0 s" by (rule inv)
  fix i t
  assume "i < k" "emit_inv r m sh b start stride n i t"
  then show "\<exists>t'. emit r m sh (2 * r + 1) (n - 1) stride i t = Some t' \<and>
      emit_inv r m sh b start stride n (Suc i) t'"
    using k by (intro emit_step [OF ok r e]) simp_all
qed

lemma blur_line_ok:
  assumes ok: "line_ok b start stride n" and r: "r < 255" and e: "entry_ok r m sh"
    and s0: "length (stack s0) = 2 * r + 1" "mem s0 = b"
  shows "\<exists>s. blur_line r m sh (2 * r + 1) n (n - 1) stride start s0 = Some s \<and>
     emit_inv r m sh b start stride n n s"
proof -
  obtain t where t: "line_init r (n - 1) stride start s0 = Some t"
      "emit_inv r m sh b start stride n 0 t"
    using line_init_ok [OF ok r s0] by blast
  obtain s where "for_loop [0..<n] (emit r m sh (2 * r + 1) (n - 1) stride) t = Some s"
      "emit_inv r m sh b start stride n n s"
    using emit_loop [OF ok r e t(2), of n] by auto
  then show ?thesis using t(1) by (simp add: blur_line_split)
qed

subsection \<open>One pass\<close>

lemma pass_step:
  assumes r: "r < 255" and e: "entry_ok r m sh"
    and n: "1 \<le> n" "n < 4294967296" "1 \<le> stride" "(n - 1) * stride < 4294967296"
    and fit: "\<And>L. L < M \<Longrightarrow> stf L + (n - 1) * stride < length orig"
    and disj: "\<And>L L' i i'. L < M \<Longrightarrow> L' < M \<Longrightarrow> i < n \<Longrightarrow> i' < n \<Longrightarrow>
         stf L + i * stride = stf L' + i' * stride \<Longrightarrow> L = L'"
    and K: "K < M" and inv: "pass_inv r m sh orig stf stride n M K t"
  shows "\<exists>t'. blur_line r m sh (2 * r + 1) n (n - 1) stride (stf K) t = Some t' \<and>
     pass_inv r m sh orig stf stride n M (Suc K) t'"
proof -
  define b where "b = mem t"
  have f: "length (stack t) = 2 * r + 1" "length b = length orig" "\<forall>v\<in>set b. v \<le> 255"
    "\<forall>L<M. \<forall>i<n. b ! (stf L + i * stride) =
        (if L < K then scaled m sh (win_sum r (ext orig (stf L) stride n r) i)
         else orig ! (stf L + i * stride))"
    "\<forall>p<length orig. (\<forall>L<M. \<forall>i<n. p \<noteq> stf L + i * stride) \<longrightarrow> b ! p = orig ! p"
    using inv unfolding pass_inv_def b_def by blast+
  have ok: "line_ok b (stf K) stride n"
    using n fit [OF K] f(2,3) by (simp add: line_ok_def)
  obtain t' where t': "blur_line r m sh (2 * r + 1) n (n - 1) stride (stf K) t = Some t'"
      "emit_inv r m sh b (stf K) stride n n t'"
    using blur_line_ok [OF ok r e f(1)] by (auto simp: b_def)
  have g: "length (stack t') = 2 * r + 1" "length (mem t') = length b"
    "\<forall>i<n. mem t' ! (stf K + i * stride) = scaled m sh (win_sum r (ext b (stf K) stride n r) i)"
    "\<forall>p<length b. (\<forall>i<n. p \<noteq> stf K + i * stride) \<longrightarrow> mem t' ! p = b ! p"
    using t'(2) unfolding emit_inv_def by simp_all
  have same: "ext b (stf K) stride n r j = ext orig (stf K) stride n r j" for j
  proof -
    have "min (j - r) (n - 1) < n" using n(1) by arith
    then show ?thesis unfolding ext_def using f(4) K by simp
  qed
  then have same': "ext b (stf K) stride n r = ext orig (stf K) stride n r" by (rule ext)
  have idx: "stf L + i * stride < length orig" if "L < M" "i < n" for L i
  proof -
    have "i \<le> n - 1" using that(2) by simp
    then have "i * stride \<le> (n - 1) * stride" by (rule mult_le_mono1)
    then show ?thesis using fit [OF that(1)] by linarith
  qed
  have c1: "mem t' ! (stf L + i * stride) =
      (if L < Suc K then scaled m sh (win_sum r (ext orig (stf L) stride n r) i)
       else orig ! (stf L + i * stride))" if "L < M" "i < n" for L i
  proof (cases "L = K")
    case True
    then show ?thesis using g(3) that by (simp add: same')
  next
    case False
    have "stf L + i * stride \<noteq> stf K + i' * stride" if "i' < n" for i'
      using disj [OF \<open>L < M\<close> K \<open>i < n\<close> that] False by blast
    then have "mem t' ! (stf L + i * stride) = b ! (stf L + i * stride)"
      using g(4) idx [OF that] f(2) by simp
    then show ?thesis using f(4) that False by (simp add: less_Suc_eq)
  qed
  have c2: "mem t' ! p = orig ! p" if "p < length orig" "\<forall>L<M. \<forall>i<n. p \<noteq> stf L + i * stride" for p
  proof -
    have "\<forall>i<n. p \<noteq> stf K + i * stride" using that(2) K by blast
    then have "mem t' ! p = b ! p" using g(4) that(1) f(2) by simp
    then show ?thesis using f(5) that by simp
  qed
  have c3: "mem t' ! p \<le> 255" if "p < length b" for p
  proof (cases "\<exists>i<n. p = stf K + i * stride")
    case True
    then show ?thesis using g(3) by (auto simp: scaled_byte)
  next
    case False
    then have "mem t' ! p = b ! p" using g(4) that by simp
    then show ?thesis using f(3) that by simp
  qed
  have "\<forall>v\<in>set (mem t'). v \<le> 255"
    using c3 g(2) by (auto simp: in_set_conv_nth)
  then have "pass_inv r m sh orig stf stride n M (Suc K) t'"
    unfolding pass_inv_def using c1 c2 g(1,2) f(2) by simp
  then show ?thesis using t'(1) by blast
qed

lemma pass_ok:
  assumes r: "r < 255" and e: "entry_ok r m sh"
    and n: "1 \<le> n" "n < 4294967296" "1 \<le> stride" "(n - 1) * stride < 4294967296"
    and fit: "\<And>L. L < M \<Longrightarrow> stf L + (n - 1) * stride < length orig"
    and disj: "\<And>L L' i i'. L < M \<Longrightarrow> L' < M \<Longrightarrow> i < n \<Longrightarrow> i' < n \<Longrightarrow>
         stf L + i * stride = stf L' + i' * stride \<Longrightarrow> L = L'"
    and bytes: "\<forall>v\<in>set orig. v \<le> 255"
    and t0: "mem t0 = orig" "length (stack t0) = 2 * r + 1"
    and K: "K \<le> M"
  shows "\<exists>t. for_loop [0..<K] (\<lambda>L. blur_line r m sh (2 * r + 1) n (n - 1) stride (stf L)) t0 = Some t \<and>
     pass_inv r m sh orig stf stride n M K t"
proof (rule for_loop_inv)
  show "0 \<le> K" by simp
  show "pass_inv r m sh orig stf stride n M 0 t0"
    using t0 bytes by (simp add: pass_inv_def)
  fix i t
  assume "i < K" "pass_inv r m sh orig stf stride n M i t"
  then show "\<exists>t'. blur_line r m sh (2 * r + 1) n (n - 1) stride (stf i) t = Some t' \<and>
      pass_inv r m sh orig stf stride n M (Suc i) t'"
    using K by (intro pass_step [OF r e n fit disj]) simp_all
qed

subsection \<open>The two steps\<close>

lemma u32_pred: "1 \<le> w \<Longrightarrow> w < 4294967296 \<Longrightarrow> u32 (w + 4294967295) = w - 1"
proof -
  assume h: "1 \<le> w" "w < 4294967296"
  have "u32 (w + (4294967296 - 1)) = w - 1" using h by (intro u32_sub_id) simp_all
  then show ?thesis by simp
qed

lemma u32_div: "r < 255 \<Longrightarrow> u32 (u32 (r * 2) + 1) = 2 * r + 1"
proof -
  assume h: "r < 255"
  then have "u32 (r * 2) = r * 2" by (intro u32_id) simp
  moreover have "u32 (r * 2 + 1) = r * 2 + 1" using h by (intro u32_id) simp
  ultimately show ?thesis by simp
qed

lemma load_tables:
  "r < 255 \<Longrightarrow> load stackblur_mul r = Some (stackblur_mul ! r)"
  "r < 255 \<Longrightarrow> load stackblur_shr r = Some (stackblur_shr ! r)"
  by (simp_all add: load_def table_lengths)

lemma size_bounds:
  fixes w h :: nat
  assumes "1 \<le> w" "1 \<le> h" "w * h < 4294967296"
  shows "w < 4294967296" "h < 4294967296" "(w - 1) * 1 < 4294967296" "(h - 1) * w < 4294967296"
proof -
  have "w * 1 \<le> w * h" using assms(2) by (intro mult_le_mono2)
  then have "w \<le> w * h" by (simp only: mult_1_right)
  then show w: "w < 4294967296" using assms(3) by (rule le_less_trans)
  have "1 * h \<le> w * h" using assms(1) by (intro mult_le_mono1)
  then have "h \<le> w * h" by (simp only: mult_1)
  then show "h < 4294967296" using assms(3) by (rule le_less_trans)
  show "(w - 1) * 1 < 4294967296" using w by simp
  have "(h - 1) * w \<le> h * w" by (intro mult_le_mono1) simp
  then show "(h - 1) * w < 4294967296" using assms(3) by (simp only: mult.commute [of h w])
qed

lemma row_start:
  fixes w h y :: nat
  assumes "y < h" "w * h < 4294967296"
  shows "u32 (y * w) = y * w"
proof -
  have "y * w \<le> h * w" using assms(1) by (intro mult_le_mono1) simp
  then have "y * w < 4294967296" using assms(2) by (simp only: mult.commute [of h w])
  then show ?thesis by (rule u32_id)
qed

lemma row_fit:
  fixes w h y :: nat
  assumes "y < h" "1 \<le> w"
  shows "y * w + (w - 1) * 1 < w * h"
proof -
  have "Suc y * w \<le> h * w" using assms(1) by (intro mult_le_mono1) simp
  then have "y * w + w \<le> w * h" by (simp add: mult.commute)
  then show ?thesis using assms(2) by simp
qed

lemma col_fit:
  fixes w h x :: nat
  assumes "x < w" "1 \<le> h"
  shows "x + (h - 1) * w < w * h"
proof -
  have "x + (h - 1) * w < w + (h - 1) * w" using assms(1) by simp
  also have "\<dots> = h * w" using assms(2) by (cases h) simp_all
  finally show ?thesis by (simp only: mult.commute [of h w])
qed

lemma row_disj:
  fixes w :: nat
  assumes "i < w" "i' < w" "y * w + i * 1 = y' * w + i' * 1"
  shows "y = y'"
proof -
  have "(i + y * w) div w = (i' + y' * w) div w" using assms(3) by (simp add: add.commute)
  then show ?thesis using assms(1,2) by simp
qed

lemma col_disj:
  fixes w :: nat
  assumes "x < w" "x' < w" "x + i * w = x' + i' * w"
  shows "x = x'"
proof -
  have "(x + i * w) mod w = (x' + i' * w) mod w" using assms(3) by simp
  then show ?thesis using assms(1,2) by simp
qed

text \<open>The rows before row \<open>l\<close> of step 1, and the columns before column \<open>l\<close> of step 2.\<close>

lemma rows_ok:
  assumes r: "r < 255" and w: "1 \<le> w" and h: "1 \<le> h" and sz: "w * h < 4294967296"
    and len: "length src = w * h" and bytes: "\<forall>v\<in>set src. v \<le> 255"
    and t0: "mem t0 = src" "length (stack t0) = 2 * r + 1" and l: "l \<le> h"
  shows "\<exists>t. for_loop [0..<l]
        (\<lambda>y. blur_line r (stackblur_mul ! r) (stackblur_shr ! r) (2 * r + 1) w (w - 1) 1 (u32 (y * w))) t0 = Some t \<and>
      pass_inv r (stackblur_mul ! r) (stackblur_shr ! r) src (\<lambda>y. u32 (y * w)) 1 w h l t"
proof (rule pass_ok [OF r table_entry_ok [OF r] w _ _ _ _ _ bytes t0 l])
  show "w < 4294967296" "(w - 1) * 1 < 4294967296" using size_bounds [OF w h sz] by simp_all
  show "(1::nat) \<le> 1" by simp
  show "u32 (L * w) + (w - 1) * 1 < length src" if "L < h" for L
    using row_fit [OF that w] by (simp add: row_start [OF that sz] len)
  show "L = L'" if "L < h" "L' < h" "i < w" "i' < w" "u32 (L * w) + i * 1 = u32 (L' * w) + i' * 1"
    for L L' i i'
    using that row_disj [of i w i' L L'] by (simp add: row_start [OF _ sz])
qed

lemma cols_ok:
  assumes r: "r < 255" and w: "1 \<le> w" and h: "1 \<le> h" and sz: "w * h < 4294967296"
    and len: "length src = w * h" and bytes: "\<forall>v\<in>set src. v \<le> 255"
    and t0: "mem t0 = src" "length (stack t0) = 2 * r + 1" and l: "l \<le> w"
  shows "\<exists>t. for_loop [0..<l]
        (\<lambda>x. blur_line r (stackblur_mul ! r) (stackblur_shr ! r) (2 * r + 1) h (h - 1) w x) t0 = Some t \<and>
      pass_inv r (stackblur_mul ! r) (stackblur_shr ! r) src (\<lambda>x. x) w h w l t"
proof (rule pass_ok [OF r table_entry_ok [OF r] h _ w _ _ _ bytes t0 l])
  show "h < 4294967296" "(h - 1) * w < 4294967296" using size_bounds [OF w h sz] by simp_all
  show "L + (h - 1) * w < length src" if "L < w" for L
    using col_fit [OF that h] by (simp add: len)
  show "L = L'" if "L < w" "L' < w" "i < h" "i' < h" "L + i * w = L' + i' * w"
    for L L' i i'
    using that col_disj [of L w L' i i'] by simp
qed

lemma step1_run:
  assumes r: "r < 255" and w: "1 \<le> w" and h: "1 \<le> h" and sz: "w * h < 4294967296"
    and len: "length src = w * h" and bytes: "\<forall>v\<in>set src. v \<le> 255"
  shows "\<exists>t. stackblur src w h r 1 = Some (mem t) \<and>
      pass_inv r (stackblur_mul ! r) (stackblur_shr ! r) src (\<lambda>y. u32 (y * w)) 1 w h h t"
proof -
  define t0 where "t0 = \<lparr>mem = src, stack = replicate (2 * r + 1) 0, sumv = 0, sum_in = 0,
      sum_out = 0, src_ptr = 0, dst_ptr = 0, sp = 0, xp = 0\<rparr>"
  have "\<exists>t. for_loop [0..<h]
        (\<lambda>y. blur_line r (stackblur_mul ! r) (stackblur_shr ! r) (2 * r + 1) w (w - 1) 1 (u32 (y * w))) t0 = Some t \<and>
      pass_inv r (stackblur_mul ! r) (stackblur_shr ! r) src (\<lambda>y. u32 (y * w)) 1 w h h t"
    by (rule rows_ok [OF r w h sz len bytes]) (simp_all add: t0_def)
  then obtain t where t: "for_loop [0..<h]
        (\<lambda>y. blur_line r (stackblur_mul ! r) (stackblur_shr ! r) (2 * r + 1) w (w - 1) 1 (u32 (y * w))) t0 = Some t"
      "pass_inv r (stackblur_mul ! r) (stackblur_shr ! r) src (\<lambda>y. u32 (y * w)) 1 w h h t"
    by blast
  have "stackblur src w h r 1 = Some (mem t)"
    unfolding stackblur_def Let_def u32_pred [OF w size_bounds(1) [OF w h sz]]
      u32_pred [OF h size_bounds(2) [OF w h sz]] u32_div [OF r] load_tables [OF r]
      bind.bind_lunit t0_def [symmetric] t(1)
    by simp
  then show ?thesis using t(2) by blast
qed

lemma step2_run:
  assumes r: "r < 255" and w: "1 \<le> w" and h: "1 \<le> h" and sz: "w * h < 4294967296"
    and len: "length src = w * h" and bytes: "\<forall>v\<in>set src. v \<le> 255"
  shows "\<exists>t. stackblur src w h r 2 = Some (mem t) \<and>
      pass_inv r (stackblur_mul ! r) (stackblur_shr ! r) src (\<lambda>x. x) w h w w t"
proof -
  define t0 where "t0 = \<lparr>mem = src, stack = replicate (2 * r + 1) 0, sumv = 0, sum_in = 0,
      sum_out = 0, src_ptr = 0, dst_ptr = 0, sp = 0, xp = 0\<rparr>"
  have "\<exists>t. for_loop [0..<w]
        (\<lambda>x. blur_line r (stackblur_mul ! r) (stackblur_shr ! r) (2 * r + 1) h (h - 1) w x) t0 = Some t \<and>
      pass_inv r (stackblur_mul ! r) (stackblur_shr ! r) src (\<lambda>x. x) w h w w t"
    by (rule cols_ok [OF r w h sz len bytes]) (simp_all add: t0_def)
  then obtain t where t: "for_loop [0..<w]
        (\<lambda>x. blur_line r (stackblur_mul ! r) (stackblur_shr ! r) (2 * r + 1) h (h - 1) w x) t0 = Some t"
      "pass_inv r (stackblur_mul ! r) (stackblur_shr ! r) src (\<lambda>x. x) w h w w t"
    by blast
  have c: "((2::int) = 1) = False" "((2::int) = 2) = True" by simp_all
  have "stackblur src w h r 2 = Some (mem t)"
    unfolding stackblur_def Let_def u32_pred [OF w size_bounds(1) [OF w h sz]]
      u32_pred [OF h size_bounds(2) [OF w h sz]] u32_div [OF r] load_tables [OF r]
      c if_False if_True bind.bind_lunit t0_def [symmetric] t(1)
    by simp
  then show ?thesis using t(2) by blast
qed

text \<open>What the passes return, sample by sample.\<close>

lemma step1_result:
  assumes r: "r < 255" and w: "1 \<le> w" and h: "1 \<le> h" and sz: "w * h < 4294967296"
    and len: "length src = w * h" and bytes: "\<forall>v\<in>set src. v \<le> 255"
  shows "\<exists>out. stackblur src w h r 1 = Some out \<and> length out = w * h \<and> (\<forall>v\<in>set out. v \<le> 255) \<and>
      (\<forall>y<h. \<forall>x<w. out ! (y * w + x) =
         scaled (stackblur_mul ! r) (stackblur_shr ! r) (win_sum r (ext src (y * w) 1 w r) x))"
proof -
  obtain t where t: "stackblur src w h r 1 = Some (mem t)"
      "pass_inv r (stackblur_mul ! r) (stackblur_shr ! r) src (\<lambda>y. u32 (y * w)) 1 w h h t"
    using step1_run [OF assms] by blast
  have f: "length (mem t) = length src" "\<forall>v\<in>set (mem t). v \<le> 255"
    "\<forall>L<h. \<forall>i<w. mem t ! (u32 (L * w) + i * 1) =
        (if L < h then scaled (stackblur_mul ! r) (stackblur_shr ! r) (win_sum r (ext src (u32 (L * w)) 1 w r) i)
         else src ! (u32 (L * w) + i * 1))"
    using t(2) unfolding pass_inv_def by blast+
  have "mem t ! (y * w + x) =
      scaled (stackblur_mul ! r) (stackblur_shr ! r) (win_sum r (ext src (y * w) 1 w r) x)"
    if "y < h" "x < w" for y x
    using f(3) [rule_format, OF that] that(1) unfolding row_start [OF that(1) sz] by simp
  then show ?thesis using t(1) f(1,2) len by auto
qed

lemma step2_result:
  assumes r: "r < 255" and w: "1 \<le> w" and h: "1 \<le> h" and sz: "w * h < 4294967296"
    and len: "length src = w * h" and bytes: "\<forall>v\<in>set src. v \<le> 255"
  shows "\<exists>out. stackblur src w h r 2 = Some out \<and> length out = w * h \<and> (\<forall>v\<in>set out. v \<le> 255) \<and>
      (\<forall>y<h. \<forall>x<w. out ! (y * w + x) =
         scaled (stackblur_mul ! r) (stackblur_shr ! r) (win_sum r (ext src x w h r) y))"
proof -
  obtain t where t: "stackblur src w h r 2 = Some (mem t)"
      "pass_inv r (stackblur_mul ! r) (stackblur_shr ! r) src (\<lambda>x. x) w h w w t"
    using step2_run [OF assms] by blast
  have f: "length (mem t) = length src" "\<forall>v\<in>set (mem t). v \<le> 255"
    "\<forall>L<w. \<forall>i<h. mem t ! (L + i * w) =
        (if L < w then scaled (stackblur_mul ! r) (stackblur_shr ! r) (win_sum r (ext src L w h r) i)
         else src ! (L + i * w))"
    using t(2) unfolding pass_inv_def by blast+
  have "mem t ! (y * w + x) =
      scaled (stackblur_mul ! r) (stackblur_shr ! r) (win_sum r (ext src x w h r) y)"
    if "y < h" "x < w" for y x
    using f(3) that by (simp add: add.commute)
  then show ?thesis using t(1) f(1,2) len by auto
qed

lemma to_uint_int: "n < 4294967296 \<Longrightarrow> to_uint (int n) = n"
  by (simp add: to_uint_def)

subsection \<open>The window sum is the tent-weighted sum of the specification\<close>

lemma win_sum_int:
  "int (win_sum r f x) = (\<Sum>k\<leftarrow>[- int r..int r]. (int r + 1 - \<bar>k\<bar>) * int (f (nat (int x + int r + k))))"
proof -
  define g where "g k = (int r + 1 - \<bar>k\<bar>) * int (f (nat (int x + int r + k)))" for k
  have "(\<Sum>k\<leftarrow>[- int r..int r]. g k) = sum g {- int r..int r}"
    by (simp add: interv_sum_list_conv_sum_set_int)
  also have "{- int r..int r} = {- int r..0} \<union> {1..int r}" by auto
  also have "sum g ({- int r..0} \<union> {1..int r}) = sum g {- int r..0} + sum g {1..int r}"
    by (rule sum.union_disjoint) auto
  also have "sum g {- int r..0} = (\<Sum>j<r + 1. g (int j - int r))"
    by (rule sum.reindex_bij_witness [where i = "\<lambda>j. int j - int r" and j = "\<lambda>k. nat (k + int r)"]) auto
  also have "sum g {1..int r} = (\<Sum>j<r. g (int j + 1))"
    by (rule sum.reindex_bij_witness [where i = "\<lambda>j. int j + 1" and j = "\<lambda>k. nat (k - 1)"]) auto
  also have "(\<Sum>j<r + 1. g (int j - int r)) = int (up_sum r f x)"
  proof -
    have "g (int j - int r) = int ((j + 1) * f (x + j))" if "j < r + 1" for j
    proof -
      have "nat (int x + int r + (int j - int r)) = x + j" by simp
      moreover have "int r + 1 - \<bar>int j - int r\<bar> = int (j + 1)" using that by simp
      ultimately show ?thesis unfolding g_def by (simp only: of_nat_mult)
    qed
    then show ?thesis unfolding up_sum_def by simp
  qed
  also have "(\<Sum>j<r. g (int j + 1)) = int (down_sum r f x)"
  proof -
    have "g (int j + 1) = int ((r - j) * f (x + r + 1 + j))" if "j < r" for j
    proof -
      have "nat (int x + int r + (int j + 1)) = x + r + 1 + j" by simp
      moreover have "int r + 1 - \<bar>int j + 1\<bar> = int (r - j)" using that by simp
      ultimately show ?thesis unfolding g_def by (simp only: of_nat_mult)
    qed
    then show ?thesis unfolding down_sum_def by simp
  qed
  finally show ?thesis by (simp add: win_sum_def g_def)
qed

lemma clamp_index:
  assumes "1 \<le> n" "- int r \<le> k"
  shows "nat (iclamp (int x + k) 0 (int n - 1)) = min (nat (int x + int r + k) - r) (n - 1)"
  using assms by (auto simp: iclamp_def min_def)

lemma tent_row_eq:
  assumes "1 \<le> w"
  shows "tent_row orig w r x y = int (win_sum r (ext orig (y * w) 1 w r) x)"
proof -
  have "orig ! (y * w + nat (iclamp (int x + k) 0 (int w - 1))) =
      ext orig (y * w) 1 w r (nat (int x + int r + k))" if "k \<in> set [- int r..int r]" for k
    using that clamp_index [OF assms, of r k x] by (simp add: ext_def)
  then show ?thesis unfolding tent_row_def win_sum_int
    by (intro arg_cong [where f = sum_list] map_cong) simp_all
qed

lemma tent_col_eq:
  assumes "1 \<le> h"
  shows "tent_col orig w h r x y = int (win_sum r (ext orig x w h r) y)"
proof -
  have "orig ! (nat (iclamp (int y + k) 0 (int h - 1)) * w + x) =
      ext orig x w h r (nat (int y + int r + k))" if "k \<in> set [- int r..int r]" for k
    using that clamp_index [OF assms, of r k y] by (simp add: ext_def add.commute)
  then show ?thesis unfolding tent_col_def win_sum_int
    by (intro arg_cong [where f = sum_list] map_cong) simp_all
qed

lemma scaled_unclamped:
  assumes "entry_ok r m sh" "t \<le> 255 * ((r + 1) * (r + 1))"
  shows "scaled m sh t = t * m div 2 ^ sh"
proof -
  have "pre_clamp m sh t \<le> 255" by (rule entry_ok_pre_clamp [OF assms])
  moreover have "pre_clamp m sh t = t * m div 2 ^ sh"
    unfolding pre_clamp_def using entry_ok_prod [OF assms] by (simp add: ul_mul_id)
  ultimately show ?thesis by (simp add: scaled_def clamp_def u8_def)
qed

lemma scale_spec_eq:
  assumes "r < 255" "t \<le> 255 * ((r + 1) * (r + 1))"
  shows "scale_spec r (int t) = int (scaled (stackblur_mul ! r) (stackblur_shr ! r) t)"
proof -
  define m where "m = stackblur_mul ! r"
  define sh where "sh = stackblur_shr ! r"
  have e: "entry_ok r m sh" unfolding m_def sh_def by (rule table_entry_ok [OF assms(1)])
  have a: "scaled m sh t = t * m div 2 ^ sh" by (rule scaled_unclamped [OF e assms(2)])
  have b: "scaled m sh t \<le> 255" by (rule scaled_byte)
  have "int t * int m div 2 ^ sh = int (t * m div 2 ^ sh)"
    by (simp add: zdiv_int)
  then have "scale_spec r (int t) = iclamp (int (scaled m sh t)) 0 255"
    by (simp add: scale_spec_def m_def [symmetric] sh_def [symmetric] a)
  then show ?thesis using b by (simp add: iclamp_def m_def sh_def)
qed

lemma row_line_ok:
  assumes "1 \<le> w" "1 \<le> h" "w * h < 4294967296" "length src = w * h" "\<forall>v\<in>set src. v \<le> 255" "y < h"
  shows "line_ok src (y * w) 1 w"
  unfolding line_ok_def
  using assms(1,4,5) size_bounds [OF assms(1,2,3)] row_fit [OF assms(6,1)] by simp

lemma col_line_ok:
  assumes "1 \<le> w" "1 \<le> h" "w * h < 4294967296" "length src = w * h" "\<forall>v\<in>set src. v \<le> 255" "x < w"
  shows "line_ok src x w h"
  unfolding line_ok_def
  using assms(1,2,4,5) size_bounds [OF assms(1,2,3)] col_fit [OF assms(6,2)] by simp

lemma win_sum_ext_bound:
  "line_ok b start stride n \<Longrightarrow> win_sum r (ext b start stride n r) k \<le> 255 * ((r + 1) * (r + 1))"
  by (rule win_sum_bound) (rule ext_byte)

lemma step1_spec:
  assumes r: "r < 255" and w: "1 \<le> w" and h: "1 \<le> h" and sz: "w * h < 4294967296"
    and len: "length src = w * h" and bytes: "\<forall>v\<in>set src. v \<le> 255"
  shows "stackblur src w h r 1 = Some (blur_rows src w h r)"
proof -
  obtain out where out: "stackblur src w h r 1 = Some out" "length out = w * h"
      "\<forall>y<h. \<forall>x<w. out ! (y * w + x) =
         scaled (stackblur_mul ! r) (stackblur_shr ! r) (win_sum r (ext src (y * w) 1 w r) x)"
    using step1_result [OF assms] by blast
  have "out = blur_rows src w h r"
  proof (rule nth_equalityI)
    show "length out = length (blur_rows src w h r)" by (simp add: out(2) blur_rows_def)
    fix p
    assume "p < length out"
    then have p: "p < w * h" by (simp add: out(2))
    have y: "p div w < h" using p w by (simp add: less_mult_imp_div_less mult.commute)
    have x: "p mod w < w" using w by simp
    have "out ! (p div w * w + p mod w) =
        scaled (stackblur_mul ! r) (stackblur_shr ! r) (win_sum r (ext src (p div w * w) 1 w r) (p mod w))"
      using out(3) y x by blast
    moreover have "scale_spec r (tent_row src w r (p mod w) (p div w)) =
        int (scaled (stackblur_mul ! r) (stackblur_shr ! r) (win_sum r (ext src (p div w * w) 1 w r) (p mod w)))"
      unfolding tent_row_eq [OF w]
      by (rule scale_spec_eq [OF r win_sum_ext_bound [OF row_line_ok [OF w h sz len bytes y]]])
    ultimately show "out ! p = blur_rows src w h r ! p"
      using p by (simp add: blur_rows_def)
  qed
  then show ?thesis using out(1) by simp
qed

lemma step2_spec:
  assumes r: "r < 255" and w: "1 \<le> w" and h: "1 \<le> h" and sz: "w * h < 4294967296"
    and len: "length src = w * h" and bytes: "\<forall>v\<in>set src. v \<le> 255"
  shows "stackblur src w h r 2 = Some (blur_cols src w h r)"
proof -
  obtain out where out: "stackblur src w h r 2 = Some out" "length out = w * h"
      "\<forall>y<h. \<forall>x<w. out ! (y * w + x) =
         scaled (stackblur_mul ! r) (stackblur_shr ! r) (win_sum r (ext src x w h r) y)"
    using step2_result [OF assms] by blast
  have "out = blur_cols src w h r"
  proof (rule nth_equalityI)
    show "length out = length (blur_cols src w h r)" by (simp add: out(2) blur_cols_def)
    fix p
    assume "p < length out"
    then have p: "p < w * h" by (simp add: out(2))
    have y: "p div w < h" using p w by (simp add: less_mult_imp_div_less mult.commute)
    have x: "p mod w < w" using w by simp
    have "out ! (p div w * w + p mod w) =
        scaled (stackblur_mul ! r) (stackblur_shr ! r) (win_sum r (ext src (p mod w) w h r) (p div w))"
      using out(3) y x by blast
    moreover have "scale_spec r (tent_col src w h r (p mod w) (p div w)) =
        int (scaled (stackblur_mul ! r) (stackblur_shr ! r) (win_sum r (ext src (p mod w) w h r) (p div w)))"
      unfolding tent_col_eq [OF h]
      by (rule scale_spec_eq [OF r win_sum_ext_bound [OF col_line_ok [OF w h sz len bytes x]]])
    ultimately show "out ! p = blur_cols src w h r ! p"
      using p by (simp add: blur_cols_def)
  qed
  then show ?thesis using out(1) by simp
qed

subsection \<open>Flat fields and radius 0\<close>

lemma ext_replicate:
  assumes "start + (n - 1) * stride < len"
  shows "ext (replicate len v) start stride n r = (\<lambda>j. v)"
proof
  fix j
  have "min (j - r) (n - 1) * stride \<le> (n - 1) * stride" by (intro mult_le_mono1) simp
  then have "start + min (j - r) (n - 1) * stride < len" using assms by linarith
  then show "ext (replicate len v) start stride n r j = v" by (simp add: ext_def)
qed

lemma scaled_const_line:
  assumes "r < 255" "v \<le> 255" "start + (n - 1) * stride < len"
  shows "scaled (stackblur_mul ! r) (stackblur_shr ! r)
      (win_sum r (ext (replicate len v) start stride n r) k) = v"
  unfolding ext_replicate [OF assms(3)] win_sum_const
  by (rule scaled_exact [OF table_entry_ok [OF assms(1)] assms(2)])

lemma div_mod_index:
  fixes w :: nat
  assumes "1 \<le> w" "p < w * h"
  shows "p div w < h" "p mod w < w" "p div w * w + p mod w = p"
  using assms by (simp_all add: less_mult_imp_div_less mult.commute)

lemma step1_const:
  assumes r: "r < 255" and w: "1 \<le> w" and h: "1 \<le> h" and sz: "w * h < 4294967296" and v: "v \<le> 255"
  shows "stackblur (replicate (w * h) v) w h r 1 = Some (replicate (w * h) v)"
proof -
  have "\<exists>out. stackblur (replicate (w * h) v) w h r 1 = Some out \<and> length out = w * h \<and>
      (\<forall>v\<in>set out. v \<le> 255) \<and>
      (\<forall>y<h. \<forall>x<w. out ! (y * w + x) =
         scaled (stackblur_mul ! r) (stackblur_shr ! r)
           (win_sum r (ext (replicate (w * h) v) (y * w) 1 w r) x))"
    by (rule step1_result [OF r w h sz]) (simp_all add: v)
  then obtain out where out: "stackblur (replicate (w * h) v) w h r 1 = Some out" "length out = w * h"
      "\<forall>y<h. \<forall>x<w. out ! (y * w + x) =
         scaled (stackblur_mul ! r) (stackblur_shr ! r)
           (win_sum r (ext (replicate (w * h) v) (y * w) 1 w r) x)"
    by blast
  have "out = replicate (w * h) v"
  proof (rule nth_equalityI)
    show "length out = length (replicate (w * h) v)" by (simp add: out(2))
    fix p
    assume "p < length out"
    then have p: "p < w * h" by (simp add: out(2))
    note i = div_mod_index [OF w p]
    have "out ! (p div w * w + p mod w) = v"
      unfolding out(3) [rule_format, OF i(1,2)]
      by (rule scaled_const_line [OF r v row_fit [OF i(1) w]])
    then have "out ! p = v" unfolding i(3) .
    then show "out ! p = replicate (w * h) v ! p" using p by simp
  qed
  then show ?thesis using out(1) by simp
qed

lemma step2_const:
  assumes r: "r < 255" and w: "1 \<le> w" and h: "1 \<le> h" and sz: "w * h < 4294967296" and v: "v \<le> 255"
  shows "stackblur (replicate (w * h) v) w h r 2 = Some (replicate (w * h) v)"
proof -
  have "\<exists>out. stackblur (replicate (w * h) v) w h r 2 = Some out \<and> length out = w * h \<and>
      (\<forall>v\<in>set out. v \<le> 255) \<and>
      (\<forall>y<h. \<forall>x<w. out ! (y * w + x) =
         scaled (stackblur_mul ! r) (stackblur_shr ! r)
           (win_sum r (ext (replicate (w * h) v) x w h r) y))"
    by (rule step2_result [OF r w h sz]) (simp_all add: v)
  then obtain out where out: "stackblur (replicate (w * h) v) w h r 2 = Some out" "length out = w * h"
      "\<forall>y<h. \<forall>x<w. out ! (y * w + x) =
         scaled (stackblur_mul ! r) (stackblur_shr ! r)
           (win_sum r (ext (replicate (w * h) v) x w h r) y)"
    by blast
  have "out = replicate (w * h) v"
  proof (rule nth_equalityI)
    show "length out = length (replicate (w * h) v)" by (simp add: out(2))
    fix p
    assume "p < length out"
    then have p: "p < w * h" by (simp add: out(2))
    note i = div_mod_index [OF w p]
    have "out ! (p div w * w + p mod w) = v"
      unfolding out(3) [rule_format, OF i(1,2)]
      by (rule scaled_const_line [OF r v col_fit [OF i(2) h]])
    then have "out ! p = v" unfolding i(3) .
    then show "out ! p = replicate (w * h) v ! p" using p by simp
  qed
  then show ?thesis using out(1) by simp
qed

lemma win_sum_zero: "win_sum 0 f k = f k"
  by (simp add: win_sum_def up_sum_def down_sum_def)

lemma scaled_zero:
  assumes "v \<le> 255"
  shows "scaled (stackblur_mul ! 0) (stackblur_shr ! 0) v = v"
  using scaled_exact [OF table_entry_ok [of 0] assms] by simp

lemma step1_zero:
  assumes w: "1 \<le> w" and h: "1 \<le> h" and sz: "w * h < 4294967296"
    and len: "length src = w * h" and bytes: "\<forall>v\<in>set src. v \<le> 255"
  shows "stackblur src w h 0 1 = Some src"
proof -
  have "\<exists>out. stackblur src w h 0 1 = Some out \<and> length out = w * h \<and> (\<forall>v\<in>set out. v \<le> 255) \<and>
      (\<forall>y<h. \<forall>x<w. out ! (y * w + x) =
         scaled (stackblur_mul ! 0) (stackblur_shr ! 0) (win_sum 0 (ext src (y * w) 1 w 0) x))"
    by (rule step1_result [OF _ w h sz len bytes]) simp
  then obtain out where out: "stackblur src w h 0 1 = Some out" "length out = w * h"
      "\<forall>y<h. \<forall>x<w. out ! (y * w + x) =
         scaled (stackblur_mul ! 0) (stackblur_shr ! 0) (win_sum 0 (ext src (y * w) 1 w 0) x)"
    by blast
  have "out = src"
  proof (rule nth_equalityI)
    show "length out = length src" by (simp add: out(2) len)
    fix p
    assume "p < length out"
    then have p: "p < w * h" by (simp add: out(2))
    note i = div_mod_index [OF w p]
    have "ext src (p div w * w) 1 w 0 (p mod w) = src ! p"
      using i(2) by (simp add: ext_def i(3))
    moreover have "src ! p \<le> 255" using bytes p len by simp
    ultimately have "out ! (p div w * w + p mod w) = src ! p"
      unfolding out(3) [rule_format, OF i(1,2)] win_sum_zero by (simp add: scaled_zero)
    then show "out ! p = src ! p" unfolding i(3) .
  qed
  then show ?thesis using out(1) by simp
qed

lemma step2_zero:
  assumes w: "1 \<le> w" and h: "1 \<le> h" and sz: "w * h < 4294967296"
    and len: "length src = w * h" and bytes: "\<forall>v\<in>set src. v \<le> 255"
  shows "stackblur src w h 0 2 = Some src"
proof -
  have "\<exists>out. stackblur src w h 0 2 = Some out \<and> length out = w * h \<and> (\<forall>v\<in>set out. v \<le> 255) \<and>
      (\<forall>y<h. \<forall>x<w. out ! (y * w + x) =
         scaled (stackblur_mul ! 0) (stackblur_shr ! 0) (win_sum 0 (ext src x w h 0) y))"
    by (rule step2_result [OF _ w h sz len bytes]) simp
  then obtain out where out: "stackblur src w h 0 2 = Some out" "length out = w * h"
      "\<forall>y<h. \<forall>x<w. out ! (y * w + x) =
         scaled (stackblur_mul ! 0) (stackblur_shr ! 0) (win_sum 0 (ext src x w h 0) y)"
    by blast
  have "out = src"
  proof (rule nth_equalityI)
    show "length out = length src" by (simp add: out(2) len)
    fix p
    assume "p < length out"
    then have p: "p < w * h" by (simp add: out(2))
    note i = div_mod_index [OF w p]
    have "ext src (p mod w) w h 0 (p div w) = src ! p"
      using i(1) by (simp add: ext_def i(3) add.commute)
    moreover have "src ! p \<le> 255" using bytes p len by simp
    ultimately have "out ! (p div w * w + p mod w) = src ! p"
      unfolding out(3) [rule_format, OF i(1,2)] win_sum_zero by (simp add: scaled_zero)
    then show "out ! p = src ! p" unfolding i(3) .
  qed
  then show ?thesis using out(1) by simp
qed

lemma entry_run:
  assumes "w < 4294967296" "h < 4294967296" "r < 4294967296"
    and "stackblur src w h r 1 = Some mid" "stackblur mid w h r 2 = res"
  shows "Java_com_jxtras_android_utils_ImageUtils_stackblur src (int w) (int h) (int r) = res"
  using assms by (simp add: Java_com_jxtras_android_utils_ImageUtils_stackblur_def to_uint_int)

subsection \<open>A concrete row\<close>

lemma tab01: "stackblur_mul ! 0 = 512" "stackblur_shr ! 0 = 9"
    "stackblur_mul ! Suc 0 = 512" "stackblur_shr ! Suc 0 = 11"
  by (simp_all add: stackblur_mul_def stackblur_shr_def)

lemma golden_line: "blur_line (Suc 0) 512 11 3 5 4 (Suc 0) 0
     \<lparr>mem = [0, 0, 255, 0, 0], stack = [0, 0, 0], sumv = 0, sum_in = 0, sum_out = 0,
      src_ptr = 0, dst_ptr = 0, sp = 0, xp = 0\<rparr> =
   Some \<lparr>mem = [0, 63, 127, 63, 0], stack = [0, 0, 0], sumv = 0, sum_in = 0, sum_out = 0,
      src_ptr = 4, dst_ptr = 5, sp = 0, xp = 4\<rparr>"
  by (simp add: blur_line_def emit_def fill_in_def fill_out_def load_def store_def
      u32_def u8_def ul_add_def ul_sub_def ul_mul_def clamp_def Let_def upt_conv_Cons
      cong: bind_option_cong_code)

lemma replicate_3: "replicate 3 (0::nat) = [0, 0, 0]"
  by (simp add: numeral_3_eq_3)

subsection \<open>The sums at every loop head\<close>

lemma sum_prefix_le:
  fixes g :: "nat \<Rightarrow> nat"
  assumes "k \<le> K"
  shows "(\<Sum>j<k. g j) \<le> (\<Sum>j<K. g j)"
  by (rule sum_mono2) (use assms in auto)

lemma up_sum_le_win_sum: "up_sum r f k \<le> win_sum r f k"
  by (simp add: win_sum_def)

lemma out_sum_le_up_sum: "out_sum r f k \<le> up_sum r f k"
  unfolding out_sum_def up_sum_def by (rule sum_mono) simp

lemma line_state_bounds:
  assumes ok: "line_ok b start stride n" and r: "r < 255" and e: "entry_ok r m sh"
    and s0: "length (stack s0) = 2 * r + 1" "mem s0 = b"
    and pt: "valid_point r n pt"
  shows "\<exists>s. line_state r m sh (2 * r + 1) (n - 1) stride start pt s0 = Some s \<and>
     sumv s \<le> 255 * ((r + 1) * (r + 1)) \<and> sum_in s \<le> 255 * r \<and> sum_out s \<le> 255 * (r + 1) \<and>
     sum_out s \<le> sumv s"
proof -
  define E where "E = ext b start stride n r"
  define F where "F = stream b start stride n r m sh"
  define t0 where "t0 = s0\<lparr>sumv := 0, sum_in := 0, sum_out := 0, src_ptr := start\<rparr>"
  have Eb: "E j \<le> 255" for j unfolding E_def by (rule ext_byte [OF ok])
  have Fb: "F j \<le> 255" for j unfolding F_def by (rule stream_byte [OF ok])
  have WE: "win_sum r E 0 \<le> 255 * ((r + 1) * (r + 1))" by (rule win_sum_bound) (rule Eb)
  have fo: "\<exists>s'. for_loop [0..<i] fill_out t0 = Some s' \<and> fill_out_inv b start stride n r i s'"
    if "i \<le> r + 1" for i
    by (rule fill_out_loop [OF ok r _ _ _ _ _ _ that]) (simp_all add: t0_def s0)
  show ?thesis
  proof (cases pt)
    case (In_fill_out i)
    then have i: "i \<le> r + 1" using pt by simp
    obtain s where s: "for_loop [0..<i] fill_out t0 = Some s" "fill_out_inv b start stride n r i s"
      using fo [OF i] by blast
    have f: "sumv s = (\<Sum>j<i. (j + 1) * E j)" "sum_out s = (\<Sum>j<i. E j)" "sum_in s = 0"
      using s(2) by (simp_all add: fill_out_inv_def E_def)
    have "(\<Sum>j<i. (j + 1) * E j) \<le> (\<Sum>j<r + 1. (j + 1) * E j)" by (rule sum_prefix_le [OF i])
    also have "\<dots> = up_sum r E 0" by (simp add: up_sum_def)
    also have "\<dots> \<le> win_sum r E 0" by (rule up_sum_le_win_sum)
    finally have a: "sumv s \<le> 255 * ((r + 1) * (r + 1))" using WE by (simp add: f(1))
    have "(\<Sum>j<i. E j) \<le> i * 255" by (rule sum_le_const) (rule Eb)
    then have b: "sum_out s \<le> 255 * (r + 1)" using i by (simp add: f(2))
    have d: "sum_out s \<le> sumv s" unfolding f(1,2) by (rule sum_mono) simp
    show ?thesis unfolding In_fill_out line_state.simps t0_def [symmetric]
      using s(1) a b d f(3) by simp
  next
    case (In_fill_in i)
    then have i: "1 \<le> i" "i \<le> r + 1" using pt by simp_all
    obtain t1 where t1: "for_loop [0..<r + 1] fill_out t0 = Some t1"
        "fill_out_inv b start stride n r (r + 1) t1"
      using fo [of "r + 1"] by auto
    have "\<exists>s'. for_loop [1..<i] (fill_in r (n - 1) stride) t1 = Some s' \<and>
        fill_in_inv b start stride n r i s'"
      by (rule fill_in_loop [OF ok r fill_out_inv_final [OF t1(2)] i])
    then obtain s where s: "for_loop [1..<i] (fill_in r (n - 1) stride) t1 = Some s"
        "fill_in_inv b start stride n r i s"
      by blast
    have f: "sumv s = up_sum r E 0 + (\<Sum>j<i - 1. (r - j) * E (r + 1 + j))"
      "sum_in s = (\<Sum>j<i - 1. E (r + 1 + j))" "sum_out s = out_sum r E 0"
      using s(2) by (simp_all add: fill_in_inv_def E_def)
    have "(\<Sum>j<i - 1. (r - j) * E (r + 1 + j)) \<le> (\<Sum>j<r. (r - j) * E (r + 1 + j))"
      by (rule sum_prefix_le) (use i in simp)
    also have "\<dots> = down_sum r E 0" by (simp add: down_sum_def)
    finally have a: "sumv s \<le> 255 * ((r + 1) * (r + 1))"
      using WE by (simp add: f(1) win_sum_def)
    have "(\<Sum>j<i - 1. E (r + 1 + j)) \<le> (i - 1) * 255" by (rule sum_le_const) (rule Eb)
    then have b: "sum_in s \<le> 255 * r" using i by (simp add: f(2))
    have c: "sum_out s \<le> 255 * (r + 1)" unfolding f(3) by (rule out_sum_bound) (rule Eb)
    have d: "sum_out s \<le> sumv s" using out_sum_le_up_sum [of r E 0] by (simp add: f(1,3))
    show ?thesis unfolding In_fill_in line_state.simps t0_def [symmetric] t1(1) bind.bind_lunit
      using s(1) a b c d by simp
  next
    case (In_emit k)
    then have k: "k \<le> n" using pt by simp
    obtain t where t: "line_init r (n - 1) stride start s0 = Some t"
        "emit_inv r m sh b start stride n 0 t"
      using line_init_ok [OF ok r s0] by blast
    have "\<exists>s'. for_loop [0..<k] (emit r m sh (2 * r + 1) (n - 1) stride) t = Some s' \<and>
        emit_inv r m sh b start stride n k s'"
      by (rule emit_loop [OF ok r e t(2) k])
    then obtain s where s: "for_loop [0..<k] (emit r m sh (2 * r + 1) (n - 1) stride) t = Some s"
        "emit_inv r m sh b start stride n k s"
      by blast
    have f: "sumv s = win_sum r F k" "sum_out s = out_sum r F k" "sum_in s = in_sum r F k"
      using s(2) by (simp_all add: emit_inv_def F_def)
    have a: "sumv s \<le> 255 * ((r + 1) * (r + 1))" unfolding f(1) by (rule win_sum_bound) (rule Fb)
    have b: "sum_in s \<le> 255 * r" unfolding f(3) by (rule in_sum_bound) (rule Fb)
    have c: "sum_out s \<le> 255 * (r + 1)" unfolding f(2) by (rule out_sum_bound) (rule Fb)
    have d: "sum_out s \<le> sumv s" unfolding f(1,2) by (rule out_sum_le_win_sum)
    show ?thesis unfolding In_emit line_state.simps t(1) bind.bind_lunit
      using s(1) a b c d by simp
  qed
qed

lemma pass_inv_line_ok:
  assumes "pass_inv r m sh src stf stride n M K t" "length src = len"
    and "1 \<le> n" "n < 4294967296" "1 \<le> stride" "(n - 1) * stride < 4294967296"
    and "stf l + (n - 1) * stride < len"
  shows "line_ok (mem t) (stf l) stride n" "length (stack t) = 2 * r + 1"
  using assms unfolding pass_inv_def line_ok_def by simp_all

lemma step1_state_bounds:
  assumes r: "r < 255" and w: "1 \<le> w" and h: "1 \<le> h" and sz: "w * h < 4294967296"
    and len: "length src = w * h" and bytes: "\<forall>v\<in>set src. v \<le> 255"
    and l: "l < h" and pt: "valid_point r w pt"
  shows "\<exists>s. stackblur_state src w h r 1 l pt = Some s \<and>
     sumv s \<le> 255 * ((r + 1) * (r + 1)) \<and> sum_in s \<le> 255 * r \<and> sum_out s \<le> 255 * (r + 1) \<and>
     sum_out s \<le> sumv s"
proof -
  define t0 where "t0 = \<lparr>mem = src, stack = replicate (2 * r + 1) 0, sumv = 0, sum_in = 0,
      sum_out = 0, src_ptr = 0, dst_ptr = 0, sp = 0, xp = 0\<rparr>"
  have "\<exists>t. for_loop [0..<l]
        (\<lambda>y. blur_line r (stackblur_mul ! r) (stackblur_shr ! r) (2 * r + 1) w (w - 1) 1 (u32 (y * w))) t0 = Some t \<and>
      pass_inv r (stackblur_mul ! r) (stackblur_shr ! r) src (\<lambda>y. u32 (y * w)) 1 w h l t"
    by (rule rows_ok [OF r w h sz len bytes]) (use l in \<open>simp_all add: t0_def\<close>)
  then obtain t where t: "for_loop [0..<l]
        (\<lambda>y. blur_line r (stackblur_mul ! r) (stackblur_shr ! r) (2 * r + 1) w (w - 1) 1 (u32 (y * w))) t0 = Some t"
      "pass_inv r (stackblur_mul ! r) (stackblur_shr ! r) src (\<lambda>y. u32 (y * w)) 1 w h l t"
    by blast
  have fit: "u32 (l * w) + (w - 1) * 1 < w * h"
    using row_fit [OF l w] by (simp add: row_start [OF l sz])
  note lo = pass_inv_line_ok [OF t(2) len w size_bounds(1) [OF w h sz] _ size_bounds(3) [OF w h sz] fit]
  have c: "((1::int) = 1) = True" by simp
  have "stackblur_state src w h r 1 l pt =
      line_state r (stackblur_mul ! r) (stackblur_shr ! r) (2 * r + 1) (w - 1) 1 (u32 (l * w)) pt t"
    unfolding stackblur_state_def Let_def u32_pred [OF w size_bounds(1) [OF w h sz]]
      u32_pred [OF h size_bounds(2) [OF w h sz]] u32_div [OF r] load_tables [OF r]
      c if_True bind.bind_lunit t0_def [symmetric] t(1) ..
  then show ?thesis
    using line_state_bounds [OF lo(1) r table_entry_ok [OF r] lo(2) refl pt] by simp
qed

lemma step2_state_bounds:
  assumes r: "r < 255" and w: "1 \<le> w" and h: "1 \<le> h" and sz: "w * h < 4294967296"
    and len: "length src = w * h" and bytes: "\<forall>v\<in>set src. v \<le> 255"
    and l: "l < w" and pt: "valid_point r h pt"
  shows "\<exists>s. stackblur_state src w h r 2 l pt = Some s \<and>
     sumv s \<le> 255 * ((r + 1) * (r + 1)) \<and> sum_in s \<le> 255 * r \<and> sum_out s \<le> 255 * (r + 1) \<and>
     sum_out s \<le> sumv s"
proof -
  define t0 where "t0 = \<lparr>mem = src, stack = replicate (2 * r + 1) 0, sumv = 0, sum_in = 0,
      sum_out = 0, src_ptr = 0, dst_ptr = 0, sp = 0, xp = 0\<rparr>"
  have "\<exists>t. for_loop [0..<l]
        (\<lambda>x. blur_line r (stackblur_mul ! r) (stackblur_shr ! r) (2 * r + 1) h (h - 1) w x) t0 = Some t \<and>
      pass_inv r (stackblur_mul ! r) (stackblur_shr ! r) src (\<lambda>x. x) w h w l t"
    by (rule cols_ok [OF r w h sz len bytes]) (use l in \<open>simp_all add: t0_def\<close>)
  then obtain t where t: "for_loop [0..<l]
        (\<lambda>x. blur_line r (stackblur_mul ! r) (stackblur_shr ! r) (2 * r + 1) h (h - 1) w x) t0 = Some t"
      "pass_inv r (stackblur_mul ! r) (stackblur_shr ! r) src (\<lambda>x. x) w h w l t"
    by blast
  note lo = pass_inv_line_ok [OF t(2) len h size_bounds(2) [OF w h sz] w size_bounds(4) [OF w h sz]
      col_fit [OF l h]]
  have c: "((2::int) = 1) = False" "((2::int) = 2) = True" by simp_all
  have "stackblur_state src w h r 2 l pt =
      line_state r (stackblur_mul ! r) (stackblur_shr ! r) (2 * r + 1) (h - 1) w l pt t"
    unfolding stackblur_state_def Let_def u32_pred [OF w size_bounds(1) [OF w h sz]]
      u32_pred [OF h size_bounds(2) [OF w h sz]] u32_div [OF r] load_tables [OF r]
      c if_True if_False bind.bind_lunit t0_def [symmetric] t(1) ..
  then show ?thesis
    using line_state_bounds [OF lo(1) r table_entry_ok [OF r] lo(2) refl pt] by simp
qed

lemma emit_head_valid: "x < n \<Longrightarrow> valid_point r n (In_emit x)"
  by simp

lemma pre_clamp_at_head:
  assumes "r < 255" "sumv s \<le> 255 * ((r + 1) * (r + 1))"
  shows "ul_mul (sumv s) (stackblur_mul ! r) div 2 ^ (stackblur_shr ! r) \<le> 255"
  using entry_ok_pre_clamp [OF table_entry_ok [OF assms(1)] assms(2)] by (simp add: pre_clamp_def)

subsection \<open>What a run that returns has accessed\<close>














section \<open>Properties of the blur\<close>

text \<open>
  A call within the contract has \<open>w\<close> and \<open>h\<close> at least 1, a buffer of exactly \<open>w * h\<close>
  samples, each at most 255, and \<open>w * h\<close> below \<open>2 ^ 32\<close>: the offset \<^verbatim>\<open>y * w\<close> of a row is
  computed in \<^verbatim>\<open>unsigned int\<close>, and a direct buffer holds fewer than \<open>2 ^ 31\<close> bytes.
\<close>

text \<open>
  C1. The horizontal pass (step 1) replaces the sample at \<open>(x, y)\<close> by
  \<open>clamp((T * mul[radius]) >> shr[radius], 0, 255)\<close>, where \<open>T\<close> is the tent-weighted sum of
  the edge-clamped window around \<open>x\<close> in row \<open>y\<close> of the buffer as it was before the pass:
  updating the row in place gives what the direct computation from the original row gives.
\<close>

theorem horizontal_pass_is_tent_sum:
  assumes "1 \<le> w" "1 \<le> h" "w * h < 4294967296" "length buf = w * h" "\<forall>v\<in>set buf. v \<le> 255"
    and "1 \<le> radius" "radius \<le> 254"
  shows "\<exists>out. stackblur buf w h radius 1 = Some out \<and> length out = w * h \<and>
     (\<forall>y<h. \<forall>x<w. int (out ! (y * w + x)) = scale_spec radius (tent_row buf w radius x y))"
proof -
  have r: "radius < 255" using assms(7) by simp
  obtain out where out: "stackblur buf w h radius 1 = Some out" "length out = w * h"
      "\<forall>y<h. \<forall>x<w. out ! (y * w + x) =
         scaled (stackblur_mul ! radius) (stackblur_shr ! radius) (win_sum radius (ext buf (y * w) 1 w radius) x)"
    using step1_result [OF r assms(1-5)] by blast
  have "int (out ! (y * w + x)) = scale_spec radius (tent_row buf w radius x y)"
    if "y < h" "x < w" for y x
    unfolding tent_row_eq [OF assms(1)] out(3) [rule_format, OF that]
    by (rule scale_spec_eq [OF r win_sum_ext_bound [OF row_line_ok [OF assms(1-5) that(1)]], symmetric])
  then show ?thesis using out(1,2) by blast
qed

theorem horizontal_pass_is_tent_sum_witness:
  "\<exists>out. stackblur [10, 20, 30, 40, 50, 60] 3 2 1 1 = Some out \<and> length out = 3 * 2 \<and>
     (\<forall>y<2. \<forall>x<3. int (out ! (y * 3 + x)) = scale_spec 1 (tent_row [10, 20, 30, 40, 50, 60] 3 1 x y))"
  by (rule horizontal_pass_is_tent_sum) simp_all

text \<open>
  C2, as amended. For every radius in \<open>[1, 254]\<close> the pair \<open>(mul[radius], shr[radius])\<close>
  divides by \<open>(radius + 1)\<^sup>2\<close>, the sum of the tent weights: for every \<open>v\<close> in \<open>[0, 255]\<close>,
  \<open>(v * (radius + 1)\<^sup>2 * mul[radius]) >> shr[radius]\<close> is \<open>v\<close>.
\<close>

theorem table_divides_by_tent_area:
  assumes "1 \<le> radius" "radius \<le> 254" "v \<le> 255"
  shows "(v * (radius + 1)\<^sup>2 * stackblur_mul ! radius) div 2 ^ (stackblur_shr ! radius) = v"
proof -
  have r: "radius < 255" using assms(2) by simp
  have e: "entry_ok radius (stackblur_mul ! radius) (stackblur_shr ! radius)"
    by (rule table_entry_ok [OF r])
  have "v * ((radius + 1) * (radius + 1)) \<le> 255 * ((radius + 1) * (radius + 1))"
    using assms(3) by (rule mult_le_mono1)
  then have "scaled (stackblur_mul ! radius) (stackblur_shr ! radius) (v * ((radius + 1) * (radius + 1))) =
      v * ((radius + 1) * (radius + 1)) * stackblur_mul ! radius div 2 ^ (stackblur_shr ! radius)"
    by (rule scaled_unclamped [OF e])
  then show ?thesis unfolding scaled_exact [OF e assms(3)] power2_eq_square by simp
qed

theorem table_divides_by_tent_area_witness:
  "(255 * (1 + 1)\<^sup>2 * stackblur_mul ! 1) div 2 ^ (stackblur_shr ! 1) = (255::nat)"
  by (rule table_divides_by_tent_area) simp_all

text \<open>
  C2, as stated, fails: with the window area \<open>(radius * 2 + 1)\<^sup>2\<close> in place of
  \<open>(radius + 1)\<^sup>2\<close>, radius 1 and \<open>v = 255\<close> give 573.
\<close>

theorem table_window_area_counterexample:
  "(255 * (1 * 2 + 1)\<^sup>2 * stackblur_mul ! 1) div 2 ^ (stackblur_shr ! 1) \<noteq> (255::nat)"
  by (simp add: tab01)

text \<open>
  C3. The table entries at index 1 are 512 and 11, and step 1 with width 5, height 1 and
  radius 1 turns the row 0, 0, 255, 0, 0 into 0, 63, 127, 63, 0; the centre is
  \<open>(510 * 512) >> 11 = 127\<close>.
\<close>

theorem golden_row:
  "stackblur_mul ! 1 = 512 \<and> stackblur_shr ! 1 = 11 \<and>
   stackblur [0, 0, 255, 0, 0] 5 1 1 1 = Some [0, 63, 127, 63, 0] \<and>
   (510 * 512) div 2 ^ 11 = (127::nat)"
  by (simp add: stackblur_def load_def table_lengths tab01 u32_def Let_def upt_conv_Cons
      golden_line replicate_3 cong: bind_option_cong_code)

text \<open>
  C4. The two passes, step 1 and then step 2, leave a buffer in which every sample is the
  same \<open>v\<close> as it is.
\<close>

theorem flat_field_fixed_point:
  assumes "1 \<le> w" "1 \<le> h" "w * h < 4294967296" "1 \<le> radius" "radius \<le> 254" "v \<le> 255"
  shows "stackblur (replicate (w * h) v) w h radius 1 = Some (replicate (w * h) v) \<and>
     stackblur (replicate (w * h) v) w h radius 2 = Some (replicate (w * h) v) \<and>
     Java_com_jxtras_android_utils_ImageUtils_stackblur
       (replicate (w * h) v) (int w) (int h) (int radius) = Some (replicate (w * h) v)"
proof -
  have r: "radius < 255" using assms(5) by simp
  note s1 = step1_const [OF r assms(1-3,6)] and s2 = step2_const [OF r assms(1-3,6)]
  have "Java_com_jxtras_android_utils_ImageUtils_stackblur
      (replicate (w * h) v) (int w) (int h) (int radius) = Some (replicate (w * h) v)"
    using size_bounds(1,2) [OF assms(1-3)] r by (intro entry_run [OF _ _ _ s1 s2]) simp_all
  then show ?thesis using s1 s2 by blast
qed

theorem flat_field_fixed_point_witness:
  "stackblur (replicate (3 * 2) 200) 3 2 2 1 = Some (replicate (3 * 2) 200) \<and>
   stackblur (replicate (3 * 2) 200) 3 2 2 2 = Some (replicate (3 * 2) 200) \<and>
   Java_com_jxtras_android_utils_ImageUtils_stackblur
     (replicate (3 * 2) 200) (int 3) (int 2) (int 2) = Some (replicate (3 * 2) 200)"
  by (rule flat_field_fixed_point) simp_all




text \<open>
  C6. Every sample that either pass writes is in \<open>[0, 255]\<close>, and the clamp never changes
  a value: at every emission of both passes the scaled value
  \<open>(sum * mul[radius]) >> shr[radius]\<close> is at most 255 already.
\<close>

theorem outputs_in_range_clamp_idle:
  assumes "1 \<le> w" "1 \<le> h" "w * h < 4294967296" "length buf = w * h" "\<forall>v\<in>set buf. v \<le> 255"
    and "1 \<le> radius" "radius \<le> 254"
  shows "\<exists>o1 o2. stackblur buf w h radius 1 = Some o1 \<and> stackblur o1 w h radius 2 = Some o2 \<and>
     (\<forall>v\<in>set o1. v \<le> 255) \<and> (\<forall>v\<in>set o2. v \<le> 255) \<and>
     (\<forall>y<h. \<forall>x<w. \<exists>s. stackblur_state buf w h radius 1 y (In_emit x) = Some s \<and>
        ul_mul (sumv s) (stackblur_mul ! radius) div 2 ^ (stackblur_shr ! radius) \<le> 255) \<and>
     (\<forall>x<w. \<forall>y<h. \<exists>s. stackblur_state o1 w h radius 2 x (In_emit y) = Some s \<and>
        ul_mul (sumv s) (stackblur_mul ! radius) div 2 ^ (stackblur_shr ! radius) \<le> 255)"
proof -
  have r: "radius < 255" using assms(7) by simp
  obtain o1 where o1: "stackblur buf w h radius 1 = Some o1" "length o1 = w * h" "\<forall>v\<in>set o1. v \<le> 255"
    using step1_result [OF r assms(1-5)] by blast
  obtain o2 where o2: "stackblur o1 w h radius 2 = Some o2" "\<forall>v\<in>set o2. v \<le> 255"
    using step2_result [OF r assms(1-3) o1(2,3)] by blast
  have a: "\<exists>s. stackblur_state buf w h radius 1 y (In_emit x) = Some s \<and>
      ul_mul (sumv s) (stackblur_mul ! radius) div 2 ^ (stackblur_shr ! radius) \<le> 255"
    if "y < h" "x < w" for y x
    using step1_state_bounds [OF r assms(1-5) that(1) emit_head_valid [OF that(2)]]
      pre_clamp_at_head [OF r] by blast
  have b: "\<exists>s. stackblur_state o1 w h radius 2 x (In_emit y) = Some s \<and>
      ul_mul (sumv s) (stackblur_mul ! radius) div 2 ^ (stackblur_shr ! radius) \<le> 255"
    if "x < w" "y < h" for y x
    using step2_state_bounds [OF r assms(1-3) o1(2,3) that(1) emit_head_valid [OF that(2)]]
      pre_clamp_at_head [OF r] by blast
  show ?thesis using o1(1,3) o2 a b by blast
qed

theorem outputs_in_range_clamp_idle_witness:
  "\<exists>o1 o2. stackblur [10, 20, 30, 40, 250, 60] 3 2 2 1 = Some o1 \<and> stackblur o1 3 2 2 2 = Some o2 \<and>
     (\<forall>v\<in>set o1. v \<le> 255) \<and> (\<forall>v\<in>set o2. v \<le> 255) \<and>
     (\<forall>y<2. \<forall>x<3. \<exists>s. stackblur_state [10, 20, 30, 40, 250, 60] 3 2 2 1 y (In_emit x) = Some s \<and>
        ul_mul (sumv s) (stackblur_mul ! 2) div 2 ^ (stackblur_shr ! 2) \<le> 255) \<and>
     (\<forall>x<3. \<forall>y<2. \<exists>s. stackblur_state o1 3 2 2 2 x (In_emit y) = Some s \<and>
        ul_mul (sumv s) (stackblur_mul ! 2) div 2 ^ (stackblur_shr ! 2) \<le> 255)"
  by (rule outputs_in_range_clamp_idle) simp_all

text \<open>
  C7. The entry point is step 1 followed by step 2: step 1 returns the buffer with every
  row blurred, step 2, run on that buffer, returns it with every column blurred by the
  same tent-weighted, edge-clamped formula along the column, and this is what the entry
  point returns.
\<close>

theorem two_pass_composition:
  assumes "1 \<le> w" "1 \<le> h" "w * h < 4294967296" "length buf = w * h" "\<forall>v\<in>set buf. v \<le> 255"
    and "1 \<le> radius" "radius \<le> 254"
  shows "stackblur buf w h radius 1 = Some (blur_rows buf w h radius) \<and>
     stackblur (blur_rows buf w h radius) w h radius 2 =
       Some (blur_cols (blur_rows buf w h radius) w h radius) \<and>
     Java_com_jxtras_android_utils_ImageUtils_stackblur buf (int w) (int h) (int radius) =
       Some (blur_cols (blur_rows buf w h radius) w h radius)"
proof -
  have r: "radius < 255" using assms(7) by simp
  have s1: "stackblur buf w h radius 1 = Some (blur_rows buf w h radius)"
    by (rule step1_spec [OF r assms(1-5)])
  have "length (blur_rows buf w h radius) = w * h" "\<forall>v\<in>set (blur_rows buf w h radius). v \<le> 255"
    using step1_result [OF r assms(1-5)] s1 by auto
  then have s2: "stackblur (blur_rows buf w h radius) w h radius 2 =
      Some (blur_cols (blur_rows buf w h radius) w h radius)"
    by (rule step2_spec [OF r assms(1-3)])
  have "Java_com_jxtras_android_utils_ImageUtils_stackblur buf (int w) (int h) (int radius) =
      Some (blur_cols (blur_rows buf w h radius) w h radius)"
    using size_bounds(1,2) [OF assms(1-3)] r by (intro entry_run [OF _ _ _ s1 s2]) simp_all
  then show ?thesis using s1 s2 by blast
qed

theorem two_pass_composition_witness:
  "stackblur [10, 20, 30, 40, 50, 60] 3 2 1 1 = Some (blur_rows [10, 20, 30, 40, 50, 60] 3 2 1) \<and>
   stackblur (blur_rows [10, 20, 30, 40, 50, 60] 3 2 1) 3 2 1 2 =
     Some (blur_cols (blur_rows [10, 20, 30, 40, 50, 60] 3 2 1) 3 2 1) \<and>
   Java_com_jxtras_android_utils_ImageUtils_stackblur [10, 20, 30, 40, 50, 60] (int 3) (int 2) (int 1) =
     Some (blur_cols (blur_rows [10, 20, 30, 40, 50, 60] 3 2 1) 3 2 1)"
  by (rule two_pass_composition) simp_all

text \<open>
  C8. With radius 0 each pass, and so the entry point, returns the buffer unchanged; the
  table entry at index 0 is \<open>(512, 9)\<close>.
\<close>

theorem radius_zero_identity:
  assumes "1 \<le> w" "1 \<le> h" "w * h < 4294967296" "length buf = w * h" "\<forall>v\<in>set buf. v \<le> 255"
  shows "stackblur buf w h 0 1 = Some buf \<and> stackblur buf w h 0 2 = Some buf \<and>
     Java_com_jxtras_android_utils_ImageUtils_stackblur buf (int w) (int h) 0 = Some buf \<and>
     stackblur_mul ! 0 = 512 \<and> stackblur_shr ! 0 = 9"
proof -
  have s1: "stackblur buf w h 0 1 = Some buf" by (rule step1_zero [OF assms])
  have s2: "stackblur buf w h 0 2 = Some buf" by (rule step2_zero [OF assms])
  have "Java_com_jxtras_android_utils_ImageUtils_stackblur buf (int w) (int h) (int 0) = Some buf"
    using size_bounds(1,2) [OF assms(1-3)] by (intro entry_run [OF _ _ _ s1 s2]) simp_all
  then show ?thesis using s1 s2 by (simp add: tab01)
qed

theorem radius_zero_identity_witness:
  "stackblur [1, 2, 3, 4, 5, 6] 3 2 0 1 = Some [1, 2, 3, 4, 5, 6] \<and>
   stackblur [1, 2, 3, 4, 5, 6] 3 2 0 2 = Some [1, 2, 3, 4, 5, 6] \<and>
   Java_com_jxtras_android_utils_ImageUtils_stackblur [1, 2, 3, 4, 5, 6] (int 3) (int 2) 0 =
     Some [1, 2, 3, 4, 5, 6] \<and>
   stackblur_mul ! 0 = 512 \<and> stackblur_shr ! 0 = 9"
  by (rule radius_zero_identity) simp_all



text \<open>
  C10. Within the contract no access of either pass leaves the pixel buffer or the stack:
  both steps, and the entry point, return a buffer (the value \<open>None\<close>, which a read or a
  write outside an array gives, does not occur).
\<close>

theorem accesses_in_bounds:
  assumes "1 \<le> w" "1 \<le> h" "w * h < 4294967296" "length buf = w * h" "\<forall>v\<in>set buf. v \<le> 255"
    and "1 \<le> radius" "radius \<le> 254"
  shows "stackblur buf w h radius 1 \<noteq> None \<and> stackblur buf w h radius 2 \<noteq> None \<and>
     Java_com_jxtras_android_utils_ImageUtils_stackblur buf (int w) (int h) (int radius) \<noteq> None"
proof -
  have r: "radius < 255" using assms(7) by simp
  obtain o1 where o1: "stackblur buf w h radius 1 = Some o1" "length o1 = w * h" "\<forall>v\<in>set o1. v \<le> 255"
    using step1_result [OF r assms(1-5)] by blast
  obtain o2 where o2: "stackblur buf w h radius 2 = Some o2"
    using step2_result [OF r assms(1-5)] by blast
  obtain o3 where o3: "stackblur o1 w h radius 2 = Some o3"
    using step2_result [OF r assms(1-3) o1(2,3)] by blast
  have "Java_com_jxtras_android_utils_ImageUtils_stackblur buf (int w) (int h) (int radius) = Some o3"
    using size_bounds(1,2) [OF assms(1-3)] r by (intro entry_run [OF _ _ _ o1(1) o3]) simp_all
  then show ?thesis using o1(1) o2 by simp
qed

theorem accesses_in_bounds_witness:
  "stackblur [10, 20, 30, 40, 50, 60] 3 2 1 1 \<noteq> None \<and>
   stackblur [10, 20, 30, 40, 50, 60] 3 2 1 2 \<noteq> None \<and>
   Java_com_jxtras_android_utils_ImageUtils_stackblur [10, 20, 30, 40, 50, 60] (int 3) (int 2) (int 1) \<noteq> None"
  by (rule accesses_in_bounds) simp_all


end
